theory Spec2Isabelle
  imports Complex_Main "HOL-Library.Sublist"
begin

section \<open>Python strings\<close>

text \<open>
  A Python \<open>str\<close> is a sequence of Unicode code points and is modelled as the list of
  their numbers (\<open>pystr\<close>); \<open>ascii s\<close> is the \<open>str\<close> written with the ASCII
  characters of \<open>s\<close>. \<open>whitespace\<close> lists the 29 code points that \<open>str.split()\<close>
  and \<open>str.strip()\<close> treat as white space. \<open>str.upper\<close> and \<open>str.lower\<close> follow
  the Unicode character database, which is not part of the program: they are
  parameters of the model (\<open>str_upper\<close> and \<open>str_lower\<close> of the environment).

  Credibility scores and the numbers computed from them are modelled as exact
  rationals, each decimal literal of the source standing for the rational it denotes.
  The binary rounding of Python floats is not part of the model, so nothing is stated
  here about the digits of a score or about which of two nearly equal scores is the
  greater.
\<close>

type_synonym pystr = "nat list"

definition ascii :: "string \<Rightarrow> pystr" where
  "ascii s = map of_char s"

definition whitespace :: "nat list" where
  "whitespace =
     [0x09, 0x0A, 0x0B, 0x0C, 0x0D, 0x1C, 0x1D, 0x1E, 0x1F, 0x20, 0x85, 0xA0, 0x1680,
      0x2000, 0x2001, 0x2002, 0x2003, 0x2004, 0x2005, 0x2006, 0x2007, 0x2008, 0x2009, 0x200A,
      0x2028, 0x2029, 0x202F, 0x205F, 0x3000]"

definition is_space :: "nat \<Rightarrow> bool" where
  "is_space c = (c \<in> set whitespace)"

text \<open>The classes \<open>[A-Z]\<close> and \<open>[a-z]\<close> of a regular expression: ranges of code points.\<close>

definition is_upper :: "nat \<Rightarrow> bool" where
  "is_upper c = (of_char (CHR ''A'') \<le> c \<and> c \<le> of_char (CHR ''Z''))"

definition is_lower :: "nat \<Rightarrow> bool" where
  "is_lower c = (of_char (CHR ''a'') \<le> c \<and> c \<le> of_char (CHR ''z''))"

text \<open>\<open>s.split()\<close>: the maximal runs of non-whitespace characters, in order.\<close>

fun split_from :: "pystr \<Rightarrow> pystr \<Rightarrow> pystr list" where
  "split_from w [] = (if w = [] then [] else [w])"
| "split_from w (c # cs) =
     (if is_space c then (if w = [] then split_from [] cs else w # split_from [] cs)
      else split_from (w @ [c]) cs)"

definition split :: "pystr \<Rightarrow> pystr list" where
  "split s = split_from [] s"

text \<open>\<open>s.split(sep)\<close> for a one-character separator: empty pieces are kept.\<close>

fun split_on_from :: "nat \<Rightarrow> pystr \<Rightarrow> pystr \<Rightarrow> pystr list" where
  "split_on_from sep w [] = [w]"
| "split_on_from sep w (c # cs) =
     (if c = sep then w # split_on_from sep [] cs else split_on_from sep (w @ [c]) cs)"

definition split_on :: "nat \<Rightarrow> pystr \<Rightarrow> pystr list" where
  "split_on sep s = split_on_from sep [] s"

definition strip :: "pystr \<Rightarrow> pystr" where
  "strip s = rev (dropWhile is_space (rev (dropWhile is_space s)))"

text \<open>\<open>sep.join(ws)\<close>.\<close>

fun join :: "pystr \<Rightarrow> pystr list \<Rightarrow> pystr" where
  "join sep [] = []"
| "join sep [w] = w"
| "join sep (w # v # ws) = w @ sep @ join sep (v # ws)"

text \<open>\<open>sub in s\<close> on strings: \<open>sub\<close> occurs in \<open>s\<close> as a contiguous run.\<close>

fun starts_with :: "pystr \<Rightarrow> pystr \<Rightarrow> bool" where
  "starts_with [] s = True"
| "starts_with (a # as) [] = False"
| "starts_with (a # as) (c # cs) = (a = c \<and> starts_with as cs)"

fun contains :: "pystr \<Rightarrow> pystr \<Rightarrow> bool" where
  "contains sub [] = (sub = [])"
| "contains sub (c # cs) = (starts_with sub (c # cs) \<or> contains sub cs)"

section \<open>Name-shape filter\<close>

text \<open>
  \<open>re.match(r'^[A-Z][a-zA-Z.]*$', w)\<close> on a word \<open>w\<close> that holds no whitespace (it comes
  from \<open>split()\<close>): an ASCII capital, then ASCII letters and full stops only.
\<close>

definition shape_tail_char :: "nat \<Rightarrow> bool" where
  "shape_tail_char c = (is_lower c \<or> is_upper c \<or> c = of_char (CHR ''.''))"

fun matches_shape :: "pystr \<Rightarrow> bool" where
  "matches_shape [] = False"
| "matches_shape (c # cs) = (is_upper c \<and> list_all shape_tail_char cs)"

definition blacklist :: "pystr list" where
  "blacklist = [ascii ''Chief'', ascii ''Executive'', ascii ''Officer'', ascii ''Founder'', ascii ''Director'', ascii ''Manager'',
                ascii ''Google'', ascii ''Company'', ascii ''Inc'', ascii ''Ltd'', ascii ''Corporation'', ascii ''The'', ascii ''And'', ascii ''Of'',
                ascii ''President'', ascii ''Chairman'', ascii ''Board'', ascii ''Member'', ascii ''Head'', ascii ''Lead'']"

text \<open>The loop over the words returns False at the first word that fails the pattern.\<close>

fun all_words_match :: "pystr list \<Rightarrow> bool" where
  "all_words_match [] = True"
| "all_words_match (w # ws) = (if \<not> matches_shape w then False else all_words_match ws)"

definition is_likely_name :: "pystr \<Rightarrow> bool" where
  "is_likely_name candidate =
     (let words = split candidate in
      if length words < 2 then False
      else if \<not> all_words_match words then False
      else if list_ex (\<lambda>w. w \<in> set blacklist) words then False
      else True)"

section \<open>The outside world and the process state\<close>

text \<open>
  A search result is a Python dict; the code reads its keys \<open>href\<close>, \<open>url\<close> and \<open>body\<close>
  with \<open>dict.get\<close>. A field is \<open>None\<close> when the key is absent or holds \<open>None\<close>.
\<close>

record search_result =
  title :: "pystr option"
  href :: "pystr option"
  url :: "pystr option"
  body :: "pystr option"

record brave_item =
  item_title :: "pystr option"
  item_url :: "pystr option"
  item_description :: "pystr option"

text \<open>
  What the Brave endpoint answers: \<open>requests.get\<close> raises, or there is a response with
  a status code and, read through \<open>resp.json()\<close>, the items of
  \<open>data.get("web", {}).get("results", [])\<close> (\<open>None\<close> when reading them raises).
\<close>

datatype brave_reply = Brave_raised | Brave_response int "brave_item list option"

text \<open>
  What a page fetch answers: \<open>requests.get\<close> raises, or there is a response with a
  status code and the visible text that BeautifulSoup extracts from it (\<open>None\<close> when
  the extraction raises).
\<close>

datatype page_reply = Page_raised | Page_response int "pystr option"

text \<open>
  The collaborators of the core, as parameters: the case mappings of the Unicode
  database, the hash, the iteration order of a set, the two switches read at start-up,
  the providers, the entity recogniser, the regular-expression engine and the URL
  parser. Each provider sees the calls made to it so far, so it may answer the same
  request differently at different times.
\<close>

record env =
  str_upper :: "pystr \<Rightarrow> pystr"
  str_lower :: "pystr \<Rightarrow> pystr"
  md5_hexdigest :: "pystr \<Rightarrow> pystr"
  set_order :: "pystr list \<Rightarrow> pystr list"
  USE_BRAVE :: bool
  USE_NER :: bool
  ddgs_text :: "pystr list \<Rightarrow> pystr \<Rightarrow> nat \<Rightarrow> search_result list option"
  brave_get :: "pystr list \<Rightarrow> pystr \<Rightarrow> nat \<Rightarrow> brave_reply"
  requests_get :: "pystr list \<Rightarrow> pystr \<Rightarrow> page_reply"
  ner_persons :: "pystr \<Rightarrow> pystr \<Rightarrow> pystr \<Rightarrow> pystr list"
  regex_candidates :: "pystr \<Rightarrow> pystr \<Rightarrow> pystr \<Rightarrow> pystr list"
  urlparse_netloc :: "pystr \<Rightarrow> pystr option"

datatype log_entry =
    Running_query pystr
  | Cache_hit_ddg pystr
  | Cache_hit_brave pystr
  | Cache_hit_page pystr
  | Ddg_failed
  | Brave_error int
  | Brave_exception
  | Fetch_failed pystr
  | Found_in_snippet pystr pystr
  | Found_in_page pystr pystr
  | Traceback

text \<open>
  The process state: the two tables of the global \<open>cache\<close>, the requests that reached
  each provider (in order), and what the logger was given.
\<close>

record state =
  cache_search :: "pystr \<rightharpoonup> search_result list"
  cache_page :: "pystr \<rightharpoonup> pystr"
  ddg_calls :: "pystr list"
  brave_calls :: "pystr list"
  page_calls :: "pystr list"
  logged :: "log_entry list"

definition cache_key :: "env \<Rightarrow> pystr list \<Rightarrow> pystr" where
  "cache_key e args = md5_hexdigest e (join (ascii ''|'') args)"

section \<open>Query builder\<close>

definition aliases :: "(pystr \<times> pystr list) list" where
  "aliases =
     [(ascii ''CEO'', [ascii ''Chief Executive Officer'', ascii ''Chief Executive'']),
      (ascii ''CTO'', [ascii ''Chief Technology Officer'', ascii ''Chief Technical Officer'']),
      (ascii ''CFO'', [ascii ''Chief Financial Officer'']),
      (ascii ''CMO'', [ascii ''Chief Marketing Officer'', ascii ''Marketing Director'']),
      (ascii ''COO'', [ascii ''Chief Operating Officer'']),
      (ascii ''Founder'', [ascii ''Co-Founder'', ascii ''Founding Partner'']),
      (ascii ''Director'', [ascii ''Managing Director'', ascii ''Executive Director'']),
      (ascii ''Manager'', [ascii ''General Manager'', ascii ''Senior Manager'']),
      (ascii ''President'', [ascii ''President & CEO''])]"

text \<open>\<open>aliases.get(k, [])\<close>.\<close>

definition aliases_get :: "pystr \<Rightarrow> pystr list" where
  "aliases_get k = (case map_of aliases k of Some v \<Rightarrow> v | None \<Rightarrow> [])"

definition role_variants :: "env \<Rightarrow> pystr \<Rightarrow> pystr list" where
  "role_variants e role =
     (let role_upper = str_upper e role;
          variants = [role] @ aliases_get role_upper
      in if contains (ascii ''&'') role
         then (let parts = map strip (split_on (of_char (CHR ''&'')) role)
               in variants @ concat (map (\<lambda>p. aliases_get (str_upper e p)) parts))
         else variants)"

text \<open>The five queries appended for one role variant, in the order of the loop body.\<close>

definition variant_queries :: "pystr \<Rightarrow> pystr \<Rightarrow> pystr list" where
  "variant_queries company r =
     [company @ ascii '' '' @ r,
      ascii ''Who is the '' @ r @ ascii '' of '' @ company,
      company @ ascii '' '' @ r @ ascii '' LinkedIn'',
      company @ ascii '' leadership '' @ r,
      company @ ascii '' about '' @ r]"

definition queries_list :: "env \<Rightarrow> pystr \<Rightarrow> pystr \<Rightarrow> pystr list" where
  "queries_list e company role = concat (map (variant_queries company) (role_variants e role))"

text \<open>
  \<open>list(set(queries))\<close> enumerates the distinct queries in the iteration order of a
  Python set, which the language leaves open (it depends on the string hashes of the
  process). The order is a parameter \<open>set_order\<close> of the model; \<open>set_order_ok\<close> says what
  every Python run guarantees of it: each element once, and no other.
\<close>

definition set_order_ok :: "(pystr list \<Rightarrow> pystr list) \<Rightarrow> bool" where
  "set_order_ok f = (\<forall>xs. distinct (f xs) \<and> set (f xs) = set xs)"

definition build_queries :: "env \<Rightarrow> pystr \<Rightarrow> pystr \<Rightarrow> pystr list" where
  "build_queries e company role = set_order e (queries_list e company role)"

section \<open>Search aggregator\<close>

definition search_duckduckgo :: "env \<Rightarrow> pystr \<Rightarrow> nat \<Rightarrow> state \<Rightarrow> search_result list \<times> state" where
  "search_duckduckgo e query max_results s =
     (let key = cache_key e [ascii ''ddg'', query] in
      case cache_search s key of
        Some v \<Rightarrow> (v, s\<lparr>logged := logged s @ [Cache_hit_ddg query]\<rparr>)
      | None \<Rightarrow>
          (case ddgs_text e (ddg_calls s) query max_results of
             Some results \<Rightarrow>
               (results, s\<lparr>ddg_calls := ddg_calls s @ [query],
                           cache_search := (cache_search s)(key \<mapsto> results)\<rparr>)
           | None \<Rightarrow>
               ([], s\<lparr>ddg_calls := ddg_calls s @ [query],
                      logged := logged s @ [Ddg_failed]\<rparr>)))"

definition brave_result :: "brave_item \<Rightarrow> search_result" where
  "brave_result item =
     \<lparr>title = item_title item, href = item_url item, url = None, body = item_description item\<rparr>"

definition search_brave :: "env \<Rightarrow> pystr \<Rightarrow> nat \<Rightarrow> state \<Rightarrow> search_result list \<times> state" where
  "search_brave e query max_results s =
     (if \<not> USE_BRAVE e then ([], s)
      else
        (let key = cache_key e [ascii ''brave'', query] in
         case cache_search s key of
           Some v \<Rightarrow> (v, s\<lparr>logged := logged s @ [Cache_hit_brave query]\<rparr>)
         | None \<Rightarrow>
             (let s' = s\<lparr>brave_calls := brave_calls s @ [query]\<rparr> in
              case brave_get e (brave_calls s) query max_results of
                Brave_raised \<Rightarrow> ([], s'\<lparr>logged := logged s' @ [Brave_exception]\<rparr>)
              | Brave_response status items \<Rightarrow>
                  (if status = 200 then
                     (case items of
                        None \<Rightarrow> ([], s'\<lparr>logged := logged s' @ [Brave_exception]\<rparr>)
                      | Some its \<Rightarrow>
                          (let results = map brave_result its
                           in (results, s'\<lparr>cache_search := (cache_search s')(key \<mapsto> results)\<rparr>)))
                   else ([], s'\<lparr>logged := logged s' @ [Brave_error status]\<rparr>)))))"

text \<open>Python truthiness of an optional \<open>str\<close>: neither \<open>None\<close> nor empty.\<close>

fun truthy :: "pystr option \<Rightarrow> bool" where
  "truthy None = False"
| "truthy (Some v) = (v \<noteq> [])"

text \<open>\<open>r.get("href") or r.get("url")\<close>.\<close>

definition href_or_url :: "search_result \<Rightarrow> pystr option" where
  "href_or_url r = (if truthy (href r) then href r else url r)"

text \<open>The deduplication loop, with its two variables \<open>seen\<close> and \<open>unique\<close>.\<close>

fun unique_loop :: "search_result list \<Rightarrow> pystr set \<Rightarrow> search_result list \<Rightarrow> search_result list" where
  "unique_loop [] seen unique = unique"
| "unique_loop (r # rs) seen unique =
     (case href_or_url r of
        None \<Rightarrow> unique_loop rs seen unique
      | Some u \<Rightarrow>
          (if u \<noteq> [] \<and> u \<notin> seen then unique_loop rs (insert u seen) (unique @ [r])
           else unique_loop rs seen unique))"

definition search_all_engines :: "env \<Rightarrow> pystr \<Rightarrow> state \<Rightarrow> search_result list \<times> state" where
  "search_all_engines e query s =
     (let (r1, s1) = search_duckduckgo e query 20 s;
          (r2, s2) = (if USE_BRAVE e then search_brave e query 20 s1 else ([], s1));
          results = r1 @ r2
      in (unique_loop results {} [], s2))"

section \<open>Page fetcher\<close>

definition fetch_page_text :: "env \<Rightarrow> pystr \<Rightarrow> nat \<Rightarrow> state \<Rightarrow> pystr \<times> state" where
  "fetch_page_text e u max_chars s =
     (let key = cache_key e [ascii ''page'', u] in
      case cache_page s key of
        Some v \<Rightarrow> (v, s\<lparr>logged := logged s @ [Cache_hit_page u]\<rparr>)
      | None \<Rightarrow>
          (let s' = s\<lparr>page_calls := page_calls s @ [u]\<rparr> in
           case requests_get e (page_calls s) u of
             Page_raised \<Rightarrow>
               ([], s'\<lparr>logged := logged s' @ [Fetch_failed u],
                       cache_page := (cache_page s')(key \<mapsto> [])\<rparr>)
           | Page_response status text \<Rightarrow>
               (if status = 200 then
                  (case text of
                     None \<Rightarrow>
                       ([], s'\<lparr>logged := logged s' @ [Fetch_failed u],
                               cache_page := (cache_page s')(key \<mapsto> [])\<rparr>)
                   | Some t \<Rightarrow>
                       (let truncated = take max_chars t
                        in (truncated, s'\<lparr>cache_page := (cache_page s')(key \<mapsto> truncated)\<rparr>)))
                else ([], s'\<lparr>cache_page := (cache_page s')(key \<mapsto> [])\<rparr>))))"

section \<open>Name extractor\<close>

text \<open>
  The entity recogniser and the regular-expression engine are collaborators.
  \<open>ner_persons e text company_lower role_lower\<close> is the stripped text of every PERSON
  entity of \<open>text\<close> whose sentence, lowercased, contains both lowercased strings, in
  entity order; \<open>regex_candidates e text company role\<close> is the stripped first group of
  every match of the six patterns, pattern after pattern, each in document order.
  The code returns the first of them that passes \<open>is_likely_name\<close>.
\<close>

definition extract_name_with_ner :: "env \<Rightarrow> pystr \<Rightarrow> pystr \<Rightarrow> pystr \<Rightarrow> pystr option" where
  "extract_name_with_ner e text company role =
     (if \<not> USE_NER e then None
      else find is_likely_name (ner_persons e (take 10000 text) (str_lower e company) (str_lower e role)))"

definition extract_name_from_text :: "env \<Rightarrow> pystr \<Rightarrow> pystr \<Rightarrow> pystr \<Rightarrow> pystr option" where
  "extract_name_from_text e text company role =
     (let name = (if USE_NER e then extract_name_with_ner e text company role else None)
      in if truthy name then name
         else find is_likely_name (regex_candidates e text company role))"

definition extract_name_from_snippet :: "env \<Rightarrow> pystr \<Rightarrow> pystr \<Rightarrow> pystr \<Rightarrow> pystr option" where
  "extract_name_from_snippet e snippet company role = extract_name_from_text e snippet company role"

section \<open>Credibility scorer\<close>

datatype py_error = ValueError | ZeroDivisionError | IndexError

definition trusted :: "pystr list" where
  "trusted = [ascii ''bloomberg'', ascii ''reuters'', ascii ''wsj'', ascii ''nytimes'', ascii ''bbc'', ascii ''forbes'', ascii ''techcrunch'',
              ascii ''cnbc'', ascii ''ft.com'', ascii ''economist'', ascii ''apnews'']"

text \<open>
  \<open>urlparse(url).netloc\<close> is the library's; it raises \<open>ValueError\<close> on some malformed
  URLs, which is the \<open>None\<close> of \<open>urlparse_netloc\<close>.
\<close>

definition credibility_of_domain :: "pystr \<Rightarrow> rat" where
  "credibility_of_domain domain =
     (if contains (ascii ''linkedin.com'') domain then 95 / 100
      else if contains (ascii ''wikipedia.org'') domain then 9 / 10
      else if list_ex (\<lambda>x. contains x domain) [ascii ''.gov'', ascii ''.edu''] then 85 / 100
      else if list_ex (\<lambda>t. contains t domain) trusted then 8 / 10
      else 6 / 10)"

definition source_credibility :: "env \<Rightarrow> pystr \<Rightarrow> py_error + rat" where
  "source_credibility e u =
     (case urlparse_netloc e u of
        None \<Rightarrow> Inl ValueError
      | Some n \<Rightarrow> Inr (credibility_of_domain (str_lower e n)))"

section \<open>Ranking engine\<close>

text \<open>
  \<open>name_candidates\<close> is a \<open>defaultdict(list)\<close>: a dict in insertion order, from a name
  to its contributions. \<open>name_candidates[name].append(c)\<close> adds \<open>c\<close> to the list of an
  existing key and puts a new key last.
\<close>

type_synonym contribution = "pystr \<times> rat"
type_synonym candidates = "(pystr \<times> contribution list) list"

fun append_candidate :: "candidates \<Rightarrow> pystr \<Rightarrow> contribution \<Rightarrow> candidates" where
  "append_candidate [] name c = [(name, [c])]"
| "append_candidate ((n, cs) # rest) name c =
     (if n = name then (n, cs @ [c]) # rest else (n, cs) # append_candidate rest name c)"

text \<open>The body of the loop over the results of one query; \<open>continue\<close> is the early result.\<close>

definition record_name :: "env \<Rightarrow> candidates \<Rightarrow> pystr \<Rightarrow> pystr \<Rightarrow> state \<Rightarrow> (py_error + candidates) \<times> state" where
  "record_name e nc name u s =
     (case source_credibility e u of
        Inl err \<Rightarrow> (Inl err, s)
      | Inr c \<Rightarrow> (Inr (append_candidate nc name (u, c)), s))"

definition from_page :: "env \<Rightarrow> pystr \<Rightarrow> pystr \<Rightarrow> pystr \<Rightarrow> state \<Rightarrow> candidates \<Rightarrow> (py_error + candidates) \<times> state" where
  "from_page e company role u s nc =
     (let (page_text, s1) = fetch_page_text e u 5000 s in
      if page_text \<noteq> [] then
        (case extract_name_from_text e page_text company role of
           None \<Rightarrow> (Inr nc, s1)
         | Some name \<Rightarrow>
             (if name \<noteq> [] then
                record_name e nc name u (s1\<lparr>logged := logged s1 @ [Found_in_page name u]\<rparr>)
              else (Inr nc, s1)))
      else (Inr nc, s1))"

definition process_result :: "env \<Rightarrow> pystr \<Rightarrow> pystr \<Rightarrow> search_result \<Rightarrow> state \<Rightarrow> candidates \<Rightarrow> (py_error + candidates) \<times> state" where
  "process_result e company role res s nc =
     (case href_or_url res of
        None \<Rightarrow> (Inr nc, s)
      | Some u \<Rightarrow>
          (if u = [] then (Inr nc, s)
           else
             (case body res of
                None \<Rightarrow> from_page e company role u s nc
              | Some snippet \<Rightarrow>
                  (if snippet \<noteq> [] then
                     (case extract_name_from_snippet e snippet company role of
                        None \<Rightarrow> from_page e company role u s nc
                      | Some name \<Rightarrow>
                          (if name \<noteq> [] then
                             record_name e nc name u (s\<lparr>logged := logged s @ [Found_in_snippet name u]\<rparr>)
                           else from_page e company role u s nc))
                   else from_page e company role u s nc))))"

fun process_results :: "env \<Rightarrow> pystr \<Rightarrow> pystr \<Rightarrow> search_result list \<Rightarrow> state \<Rightarrow> candidates \<Rightarrow> (py_error + candidates) \<times> state" where
  "process_results e company role [] s nc = (Inr nc, s)"
| "process_results e company role (res # rest) s nc =
     (case process_result e company role res s nc of
        (Inl err, s') \<Rightarrow> (Inl err, s')
      | (Inr nc', s') \<Rightarrow> process_results e company role rest s' nc')"

text \<open>
  \<open>len(name_candidates) >= 2 and sum(len(v) for v in name_candidates.values()) >= 3\<close>.
\<close>

definition stop_condition :: "candidates \<Rightarrow> bool" where
  "stop_condition nc = (length nc \<ge> 2 \<and> sum_list (map (\<lambda>(n, v). length v) nc) \<ge> 3)"

text \<open>One pass of the query loop up to the stop check, then the loop with its \<open>break\<close>.\<close>

definition run_query :: "env \<Rightarrow> pystr \<Rightarrow> pystr \<Rightarrow> pystr \<Rightarrow> state \<Rightarrow> candidates \<Rightarrow> (py_error + candidates) \<times> state" where
  "run_query e company role query s nc =
     (let s1 = s\<lparr>logged := logged s @ [Running_query query]\<rparr>;
          (results, s2) = search_all_engines e query s1
      in process_results e company role results s2 nc)"

fun query_loop :: "env \<Rightarrow> pystr \<Rightarrow> pystr \<Rightarrow> pystr list \<Rightarrow> state \<Rightarrow> candidates \<Rightarrow> (py_error + candidates) \<times> state" where
  "query_loop e company role [] s nc = (Inr nc, s)"
| "query_loop e company role (q # qs) s nc =
     (case run_query e company role q s nc of
        (Inl err, s') \<Rightarrow> (Inl err, s')
      | (Inr nc', s') \<Rightarrow>
          (if stop_condition nc' then (Inr nc', s')
           else query_loop e company role qs s' nc'))"

subsection \<open>Scoring\<close>

definition common_first_names :: "pystr list" where
  "common_first_names = [ascii ''John'', ascii ''Jane'', ascii ''David'', ascii ''Sarah'']"

definition news_tokens :: "pystr list" where
  "news_tokens = [ascii ''/news/'', ascii ''/article/'', ascii ''bloomberg'', ascii ''reuters'']"

text \<open>\<open>max(sources, key=lambda x: x[1])\<close>: the first contribution of greatest score.\<close>

fun max_by_score :: "contribution \<Rightarrow> contribution list \<Rightarrow> contribution" where
  "max_by_score m [] = m"
| "max_by_score m (x # xs) = (if snd x > snd m then max_by_score x xs else max_by_score m xs)"

record best =
  best_name :: "pystr option"
  best_score :: rat
  best_url :: pystr

text \<open>
  The score of one candidate, as the loop body computes it from the candidate and the
  \<open>best_url\<close> left by the iterations before. The division raises on an empty list.
  The arithmetic is exact here and rounded to binary floats in the program: the two
  agree on the sign of a score and on its lying between 0 and 1, which is all that is
  proved of scores below; they can differ in the last digits, and so in the outcome of
  the comparison of two nearly equal scores.
\<close>

definition final_score :: "pystr \<Rightarrow> contribution list \<Rightarrow> pystr \<Rightarrow> py_error + rat" where
  "final_score name sources b_url =
     (if length sources = 0 then Inl ZeroDivisionError
      else
        (let base_avg = sum_list (map snd sources) / of_nat (length sources);
             multiplier = 1 + of_nat (length sources) * (1 / 10);
             name_parts = split name;
             multiplier = (if length name_parts = 2 \<and> name_parts ! 0 \<in> set common_first_names
                           then multiplier * (9 / 10) else multiplier);
             multiplier = (if list_ex (\<lambda>news. contains news b_url) news_tokens
                           then multiplier * (105 / 100) else multiplier)
         in Inr (min (base_avg * multiplier) 1)))"

definition score_candidate :: "best \<Rightarrow> pystr \<times> contribution list \<Rightarrow> py_error + best" where
  "score_candidate b entry =
     (case entry of (name, sources) \<Rightarrow>
        (case final_score name sources (best_url b) of
           Inl err \<Rightarrow> Inl err
         | Inr score \<Rightarrow>
             (if score > best_score b then
                (case sources of
                   [] \<Rightarrow> Inl ValueError
                 | x # xs \<Rightarrow>
                     Inr \<lparr>best_name = Some name, best_score = score,
                          best_url = fst (max_by_score x xs)\<rparr>)
              else Inr b)))"

fun score_loop :: "candidates \<Rightarrow> best \<Rightarrow> py_error + best" where
  "score_loop [] b = Inr b"
| "score_loop (entry # rest) b =
     (case score_candidate b entry of
        Inl err \<Rightarrow> Inl err
      | Inr b' \<Rightarrow> score_loop rest b')"

definition initial_best :: best where
  "initial_best = \<lparr>best_name = None, best_score = 0, best_url = []\<rparr>"

subsection \<open>The search operation\<close>

text \<open>
  \<open>round(x, 2)\<close>: to the nearest hundredth, a tie going to the even one. On the
  exact score this can be the hundredth next to the one the program gets from the
  rounded score.
\<close>

definition round2 :: "rat \<Rightarrow> rat" where
  "round2 x =
     (let y = x * 100;
          f = \<lfloor>y\<rfloor>;
          d = y - of_int f;
          n = (if d < 1 / 2 then f else if d > 1 / 2 then f + 1 else if even f then f else f + 1)
      in of_int n / 100)"

datatype json = JStr pystr | JNum rat

datatype http_exception = HTTPException int string

text \<open>
  The handler returns a dict (here the list of its items, in the order of the literal)
  or raises \<open>HTTPException\<close> when anything inside the \<open>try\<close> raised.
\<close>

definition internal_error :: "state \<Rightarrow> (http_exception + (string \<times> json) list) \<times> state" where
  "internal_error s =
     (Inl (HTTPException 500 ''Internal server error''), s\<lparr>logged := logged s @ [Traceback]\<rparr>)"

definition answer :: "pystr \<Rightarrow> pystr \<Rightarrow> best \<Rightarrow> pystr \<Rightarrow> state \<Rightarrow> (http_exception + (string \<times> json) list) \<times> state" where
  "answer company role b name s =
     (case split name of
        [] \<Rightarrow> internal_error s
      | first # rest \<Rightarrow>
          (let last = (if length (first # rest) > 1 then join (ascii '' '') rest else [])
           in (Inr [(''first_name'', JStr first),
                    (''last_name'', JStr last),
                    (''title'', JStr role),
                    (''company'', JStr company),
                    (''source_url'', JStr (best_url b)),
                    (''confidence'', JNum (round2 (best_score b)))], s)))"

definition search :: "env \<Rightarrow> pystr \<Rightarrow> pystr \<Rightarrow> state \<Rightarrow> (http_exception + (string \<times> json) list) \<times> state" where
  "search e company role s =
     (let queries = build_queries e company role in
      case query_loop e company role queries s [] of
        (Inl err, s1) \<Rightarrow> internal_error s1
      | (Inr name_candidates, s1) \<Rightarrow>
          (if name_candidates = [] then
             (Inr [(''error'', JStr (ascii ''No credible source found'')),
                   (''details'', JStr (ascii ''Could not extract any name.''))], s1)
           else
             (case score_loop name_candidates initial_best of
                Inl err \<Rightarrow> internal_error s1
              | Inr b \<Rightarrow>
                  (case best_name b of
                     None \<Rightarrow> (Inr [(''error'', JStr (ascii ''Could not determine a valid name.''))], s1)
                   | Some name \<Rightarrow>
                       (if name = [] then
                          (Inr [(''error'', JStr (ascii ''Could not determine a valid name.''))], s1)
                        else answer company role b name s1)))))"

section \<open>A stub world for concrete runs\<close>

text \<open>
  A small, fully concrete environment on which the operations can be evaluated. The
  case mappings move the 26 ASCII letters only (as \<open>str.upper\<close> and \<open>str.lower\<close>
  do on a \<open>str\<close> of ASCII characters), the hash is the identity, a set is enumerated in order of first insertion, the primary
  provider answers every query with the same five results, the secondary provider
  with one, every page fetch is refused, the pattern cascade proposes the whole text as
  its only candidate, and the network location of a URL is what stands between the
  first \<open>//\<close> and the next \<open>/\<close>, \<open>?\<close> or \<open>#\<close>.
\<close>

definition ascii_upper :: "pystr \<Rightarrow> pystr" where
  "ascii_upper s = map (\<lambda>c. if is_lower c then c - 32 else c) s"

definition ascii_lower :: "pystr \<Rightarrow> pystr" where
  "ascii_lower s = map (\<lambda>c. if is_upper c then c + 32 else c) s"

fun after_slashes :: "pystr \<Rightarrow> pystr" where
  "after_slashes (a # b # cs) =
     (if a = of_char (CHR ''/'') \<and> b = of_char (CHR ''/'') then cs else after_slashes (b # cs))"
| "after_slashes cs = []"

definition stub_netloc :: "pystr \<Rightarrow> pystr option" where
  "stub_netloc u = Some (takeWhile (\<lambda>c. c \<notin> set (ascii ''/?#'')) (after_slashes u))"

definition stub_results :: "search_result list" where
  "stub_results =
     [\<lparr>title = Some (ascii ''t1''), href = Some (ascii ''https://www.linkedin.com/in/a''), url = None,
       body = Some (ascii ''Tim Cook'')\<rparr>,
      \<lparr>title = Some (ascii ''t2''), href = Some (ascii ''https://example.com/b''), url = None,
       body = Some (ascii ''Sam Ray'')\<rparr>,
      \<lparr>title = Some (ascii ''t3''), href = Some (ascii ''https://www.linkedin.com/in/a''), url = None,
       body = Some (ascii ''Ann Lee'')\<rparr>,
      \<lparr>title = Some (ascii ''t4''), href = None, url = None,
       body = Some (ascii ''Ann Lee'')\<rparr>,
      \<lparr>title = Some (ascii ''t5''), href = None, url = Some (ascii ''https://en.wikipedia.org/c''),
       body = Some (ascii ''Tim Cook'')\<rparr>]"

definition stub_items :: "brave_item list" where
  "stub_items =
     [\<lparr>item_title = Some (ascii ''t6''), item_url = Some (ascii ''https://example.com/b''),
       item_description = Some (ascii ''Ann Lee'')\<rparr>]"

definition stub_env :: env where
  "stub_env =
     \<lparr>str_upper = ascii_upper,
      str_lower = ascii_lower,
      md5_hexdigest = (\<lambda>x. x),
      set_order = remdups,
      USE_BRAVE = True,
      USE_NER = False,
      ddgs_text = (\<lambda>calls query max_results. Some stub_results),
      brave_get = (\<lambda>calls query max_results. Brave_response 200 (Some stub_items)),
      requests_get = (\<lambda>calls u. Page_response 404 None),
      ner_persons = (\<lambda>text company role. []),
      regex_candidates = (\<lambda>text company role. [text]),
      urlparse_netloc = stub_netloc\<rparr>"

text \<open>The same world with providers that find nothing.\<close>

definition silent_env :: env where
  "silent_env =
     stub_env\<lparr>ddgs_text := (\<lambda>calls query max_results. Some []),
              brave_get := (\<lambda>calls query max_results. Brave_response 200 (Some []))\<rparr>"

definition empty_state :: state where
  "empty_state =
     \<lparr>cache_search = Map.empty, cache_page = Map.empty,
      ddg_calls = [], brave_calls = [], page_calls = [], logged = []\<rparr>"

section \<open>The specification's wording, where it differs from the code\<close>

text \<open>
  The credibility table as the specification words it, with the third rule read as a
  test on the end of the domain (\<open>.gov or .edu suffix\<close>).
\<close>

definition ends_with :: "pystr \<Rightarrow> pystr \<Rightarrow> bool" where
  "ends_with suf s = starts_with (rev suf) (rev s)"

definition credibility_as_specified :: "pystr \<Rightarrow> rat" where
  "credibility_as_specified domain =
     (if contains (ascii ''linkedin.com'') domain then 95 / 100
      else if contains (ascii ''wikipedia.org'') domain then 9 / 10
      else if ends_with (ascii ''.gov'') domain \<or> ends_with (ascii ''.edu'') domain then 85 / 100
      else if list_ex (\<lambda>t. contains t domain) trusted then 8 / 10
      else 6 / 10)"


section \<open>Notions used in the statements\<close>

text \<open>
  The number \<open>N\<close> of aliases the table holds for a role: those of the uppercased role
  and, when the role contains \<open>&\<close>, those of each of its \<open>&\<close>-separated parts,
  trimmed and uppercased.
\<close>

definition alias_count :: "env \<Rightarrow> pystr \<Rightarrow> nat" where
  "alias_count e role =
     length (aliases_get (str_upper e role))
     + (if contains (ascii ''&'') role
        then sum_list (map (\<lambda>p. length (aliases_get (str_upper e (strip p)))) (split_on (of_char (CHR ''&'')) role))
        else 0)"

text \<open>
  The queries the loop has run, read off the log: one \<open>Running query\<close> line is
  written at the top of each pass, before the providers are asked.
\<close>

fun issued :: "log_entry list \<Rightarrow> pystr list" where
  "issued [] = []"
| "issued (Running_query q # es) = q # issued es"
| "issued (entry # es) = issued es"

definition issued_queries :: "state \<Rightarrow> pystr list" where
  "issued_queries s = issued (logged s)"

text \<open>What the stub world yields for one query: two names, three contributions.\<close>

definition stub_candidates :: candidates where
  "stub_candidates =
     [(ascii ''Tim Cook'', [(ascii ''https://www.linkedin.com/in/a'', 95 / 100), (ascii ''https://en.wikipedia.org/c'', 9 / 10)]),
      (ascii ''Sam Ray'', [(ascii ''https://example.com/b'', 6 / 10)])]"

text \<open>
  The suppositions of the end-to-end property on silent providers: each provider
  answers every request with an empty list or a failure, and the cache, which outlives
  the invocation, holds no result list that is not empty.
\<close>

definition no_results :: "env \<Rightarrow> bool" where
  "no_results e =
     (\<forall>calls query max_results.
        (ddgs_text e calls query max_results = None \<or> ddgs_text e calls query max_results = Some [])
        \<and> (\<forall>items. brave_get e calls query max_results = Brave_response 200 (Some items)
               \<longrightarrow> items = []))"

definition cache_holds_no_results :: "state \<Rightarrow> bool" where
  "cache_holds_no_results s = (\<forall>key v. cache_search s key = Some v \<longrightarrow> v = [])"

text \<open>
  Every query of the list, run in turn from state \<open>s\<close> as the loop runs them, gets an
  empty list from \<open>search_all_engines\<close>.
\<close>

fun queries_find_nothing :: "env \<Rightarrow> pystr list \<Rightarrow> state \<Rightarrow> bool" where
  "queries_find_nothing e [] s = True"
| "queries_find_nothing e (q # qs) s =
     (case search_all_engines e q (s\<lparr>logged := logged s @ [Running_query q]\<rparr>) of
        (results, s') \<Rightarrow> results = [] \<and> queries_find_nothing e qs s')"

text \<open>
  What holds of the candidates at every point of the query loop: no name is empty, no
  contribution list is empty, and no credibility score is below 0.6. And what holds of
  the running best once a candidate has been taken: it names a non-empty name, with a
  positive score.
\<close>

definition sound_entry :: "pystr \<times> contribution list \<Rightarrow> bool" where
  "sound_entry entry =
     (fst entry \<noteq> [] \<and> snd entry \<noteq> [] \<and> (\<forall>c \<in> set (snd entry). 6 / 10 \<le> snd c))"

definition sound_candidates :: "candidates \<Rightarrow> bool" where
  "sound_candidates nc = (\<forall>entry \<in> set nc. sound_entry entry)"

definition chosen :: "best \<Rightarrow> bool" where
  "chosen b = ((\<exists>name. best_name b = Some name \<and> name \<noteq> []) \<and> 0 < best_score b)"



section \<open>Verification\<close>

subsection \<open>Strings\<close>

lemmas char_class_defs = ascii_def whitespace_def is_space_def is_upper_def is_lower_def
  shape_tail_char_def ascii_upper_def ascii_lower_def

lemma starts_with_iff: "starts_with sub s \<longleftrightarrow> (\<exists>q. s = sub @ q)"
  by (induction sub s rule: starts_with.induct) auto

lemma contains_iff: "contains sub s \<longleftrightarrow> (\<exists>p q. s = p @ sub @ q)"
proof (induction s)
  case Nil
  then show ?case by auto
next
  case (Cons c cs)
  show ?case
  proof
    assume "contains sub (c # cs)"
    then consider "starts_with sub (c # cs)" | "contains sub cs" by auto
    then show "\<exists>p q. c # cs = p @ sub @ q"
    proof cases
      case 1
      then obtain q where "c # cs = sub @ q" by (auto simp: starts_with_iff)
      then have "c # cs = [] @ sub @ q" by simp
      then show ?thesis by blast
    next
      case 2
      with Cons obtain p q where "cs = p @ sub @ q" by auto
      then have "c # cs = (c # p) @ sub @ q" by simp
      then show ?thesis by blast
    qed
  next
    assume "\<exists>p q. c # cs = p @ sub @ q"
    then obtain p q where pq: "c # cs = p @ sub @ q" by blast
    show "contains sub (c # cs)"
    proof (cases p)
      case Nil
      with pq have "starts_with sub (c # cs)" by (auto simp: starts_with_iff)
      then show ?thesis by simp
    next
      case (Cons a p')
      with pq have "cs = p' @ sub @ q" by simp
      with Cons.IH have "contains sub cs" by blast
      then show ?thesis by simp
    qed
  qed
qed

subsection \<open>Name-shape filter\<close>

lemma all_words_match_iff: "all_words_match ws \<longleftrightarrow> (\<forall>w \<in> set ws. matches_shape w)"
  by (induction ws) auto

lemma matches_shape_iff:
  "matches_shape w \<longleftrightarrow>
     w \<noteq> [] \<and> is_upper (hd w) \<and> (\<forall>c \<in> set (tl w). is_lower c \<or> is_upper c \<or> c = of_char (CHR ''.''))"
  by (cases w) (auto simp: list_all_iff shape_tail_char_def)

text \<open>
  C5. \<open>is_likely_name\<close> accepts a \<open>str\<close> exactly when it splits into at least two
  words, every word is an uppercase letter followed by letters and full stops only,
  and no word is in the blacklist. It accepts \<open>John Smith\<close>, rejects \<open>Chief Officer\<close>
  (\<open>Chief\<close> is in the blacklist) and rejects \<open>O'Brien Smith\<close> (the word with the
  apostrophe fails the shape test).
\<close>

theorem is_likely_name_iff:
  "(is_likely_name s \<longleftrightarrow>
      2 \<le> length (split s)
      \<and> (\<forall>w \<in> set (split s).
            w \<noteq> [] \<and> is_upper (hd w) \<and> (\<forall>c \<in> set (tl w). is_lower c \<or> is_upper c \<or> c = of_char (CHR ''.'')))
      \<and> (\<forall>w \<in> set (split s). w \<notin> set blacklist))
   \<and> is_likely_name (ascii ''John Smith'')
   \<and> \<not> is_likely_name (ascii ''Chief Officer'')
   \<and> ascii ''Chief'' \<in> set blacklist
   \<and> \<not> is_likely_name (ascii ''O'' @ [0x27] @ ascii ''Brien Smith'')
   \<and> \<not> matches_shape (ascii ''O'' @ [0x27] @ ascii ''Brien'')"
proof -
  have general: "is_likely_name s \<longleftrightarrow>
      2 \<le> length (split s)
      \<and> (\<forall>w \<in> set (split s).
            w \<noteq> [] \<and> is_upper (hd w) \<and> (\<forall>c \<in> set (tl w). is_lower c \<or> is_upper c \<or> c = of_char (CHR ''.'')))
      \<and> (\<forall>w \<in> set (split s). w \<notin> set blacklist)"
    unfolding is_likely_name_def Let_def all_words_match_iff list_ex_iff matches_shape_iff
    by auto
  have john: "is_likely_name (ascii ''John Smith'')"
    by (simp add: is_likely_name_def split_def char_class_defs blacklist_def)
  have chief: "\<not> is_likely_name (ascii ''Chief Officer'')"
    by (simp add: is_likely_name_def split_def char_class_defs blacklist_def)
  have listed: "ascii ''Chief'' \<in> set blacklist"
    by (simp add: ascii_def blacklist_def)
  have obrien: "\<not> is_likely_name (ascii ''O'' @ [0x27] @ ascii ''Brien Smith'')"
    by (simp add: is_likely_name_def split_def char_class_defs blacklist_def)
  have shape: "\<not> matches_shape (ascii ''O'' @ [0x27] @ ascii ''Brien'')"
    by (simp add: char_class_defs)
  from general john chief listed obrien shape show ?thesis by blast
qed

theorem is_likely_name_iff_witness:
  "2 \<le> length (split (ascii ''Tim Cook'')) \<and> split (ascii ''Tim Cook'') = [ascii ''Tim'', ascii ''Cook'']
   \<and> is_likely_name (ascii ''Tim Cook'') \<and> \<not> is_likely_name (ascii ''Tim'')
   \<and> split (ascii ''John'' @ [0xA0] @ ascii ''Smith'') = [ascii ''John'', ascii ''Smith'']
   \<and> is_likely_name (ascii ''John'' @ [0xA0] @ ascii ''Smith'')
   \<and> is_likely_name (ascii ''John'' @ [0x85, 0x3000] @ ascii ''Smith'')"
proof -
  have sp: "split (ascii ''Tim Cook'') = [ascii ''Tim'', ascii ''Cook'']"
    by (simp add: split_def char_class_defs)
  have sp1: "split (ascii ''Tim'') = [ascii ''Tim'']"
    by (simp add: split_def char_class_defs)
  have "is_likely_name (ascii ''Tim Cook'')"
    using is_likely_name_iff [of "ascii ''Tim Cook''"] unfolding sp
    by (simp add: char_class_defs blacklist_def)
  moreover have "\<not> is_likely_name (ascii ''Tim'')"
    using is_likely_name_iff [of "ascii ''Tim''"] unfolding sp1 by simp
  moreover have "split (ascii ''John'' @ [0xA0] @ ascii ''Smith'') = [ascii ''John'', ascii ''Smith'']"
    by (simp add: split_def char_class_defs)
  moreover have "is_likely_name (ascii ''John'' @ [0xA0] @ ascii ''Smith'')"
    using is_likely_name_iff [of "ascii ''John'' @ [0xA0] @ ascii ''Smith''"]
    by (simp add: split_def char_class_defs blacklist_def)
  moreover have "is_likely_name (ascii ''John'' @ [0x85, 0x3000] @ ascii ''Smith'')"
    using is_likely_name_iff [of "ascii ''John'' @ [0x85, 0x3000] @ ascii ''Smith''"]
    by (simp add: split_def char_class_defs blacklist_def)
  ultimately show ?thesis using sp by simp
qed

subsection \<open>Credibility scorer\<close>

text \<open>
  C4, as the code has it. When \<open>urlparse\<close> yields the network location \<open>n\<close>, the score
  is decided by \<open>n.lower()\<close>, whatever \<open>str.lower\<close> maps \<open>n\<close> to, first match first: 0.95 when it contains
  \<open>linkedin.com\<close>, else 0.90 when it contains \<open>wikipedia.org\<close>, else 0.85 when it
  contains \<open>.gov\<close> or \<open>.edu\<close> anywhere, else 0.80 when it contains one of the trusted
  news tokens, else 0.60.
\<close>

theorem source_credibility_table:
  assumes "urlparse_netloc e u = Some n"
  shows "source_credibility e u = Inr
     (let d = str_lower e n; has = (\<lambda>t. \<exists>p q. d = p @ t @ q) in
      if has (ascii ''linkedin.com'') then 95 / 100
      else if has (ascii ''wikipedia.org'') then 9 / 10
      else if has (ascii ''.gov'') \<or> has (ascii ''.edu'') then 85 / 100
      else if (\<exists>t \<in> set [ascii ''bloomberg'', ascii ''reuters'', ascii ''wsj'', ascii ''nytimes'', ascii ''bbc'', ascii ''forbes'',
                             ascii ''techcrunch'', ascii ''cnbc'', ascii ''ft.com'', ascii ''economist'', ascii ''apnews'']. has t)
           then 8 / 10
      else 6 / 10)"
  using assms
  by (simp add: source_credibility_def credibility_of_domain_def trusted_def
      contains_iff [symmetric] Let_def)

lemma stub_netloc_gov_uk: "urlparse_netloc stub_env (ascii ''https://www.gov.uk/x'') = Some (ascii ''www.gov.uk'')"
  by (simp add: ascii_def stub_env_def stub_netloc_def)

theorem source_credibility_table_witness:
  "urlparse_netloc stub_env (ascii ''https://www.gov.uk/x'') = Some (ascii ''www.gov.uk'')
   \<and> source_credibility stub_env (ascii ''https://www.gov.uk/x'') = Inr (85 / 100)"
  using source_credibility_table [OF stub_netloc_gov_uk] stub_netloc_gov_uk
  by (simp add: contains_iff [symmetric] stub_env_def char_class_defs Let_def)

text \<open>
  C4 as worded fails on a domain that holds \<open>.gov\<close> in the middle: \<open>www.gov.uk\<close> does
  not end in \<open>.gov\<close> or \<open>.edu\<close> and holds no other token, so the worded table gives
  0.60, and the code gives 0.85.
\<close>

theorem suffix_rule_counterexample:
  "urlparse_netloc stub_env (ascii ''https://www.gov.uk/x'') = Some (ascii ''www.gov.uk'')
   \<and> source_credibility stub_env (ascii ''https://www.gov.uk/x'') = Inr (85 / 100)
   \<and> str_lower stub_env (ascii ''www.gov.uk'') = ascii ''www.gov.uk''
   \<and> \<not> ends_with (ascii ''.gov'') (ascii ''www.gov.uk'')
   \<and> \<not> ends_with (ascii ''.edu'') (ascii ''www.gov.uk'')
   \<and> credibility_as_specified (ascii ''www.gov.uk'') = 6 / 10"
  by (simp add: stub_env_def stub_netloc_def source_credibility_def credibility_of_domain_def
      credibility_as_specified_def ends_with_def trusted_def char_class_defs)

subsection \<open>Query builder\<close>

lemma length_role_variants: "length (role_variants e role) = 1 + alias_count e role"
  by (simp add: role_variants_def alias_count_def Let_def length_concat comp_def)

lemma length_variant_queries: "length (variant_queries company r) = 5"
  by (simp add: variant_queries_def)

lemma length_queries_list: "length (queries_list e company role) = 5 * (1 + alias_count e role)"
proof -
  have "length (concat (map (variant_queries company) vs)) = 5 * length vs" for vs
    by (induction vs) (simp_all add: length_variant_queries)
  then show ?thesis
    by (simp add: queries_list_def length_role_variants)
qed

text \<open>The five queries of one variant have five different lengths.\<close>

lemma distinct_variant_queries: "distinct (variant_queries company r)"
proof -
  have "distinct (map length (variant_queries company r))"
    by (simp add: variant_queries_def ascii_def)
  then show ?thesis by (simp add: distinct_map)
qed

lemma role_variants_head: "\<exists>vs. role_variants e role = role # vs"
  by (simp add: role_variants_def Let_def)

lemma variant_queries_subset:
  "set (variant_queries company role) \<subseteq> set (queries_list e company role)"
proof -
  obtain vs where "role_variants e role = role # vs" using role_variants_head by blast
  then show ?thesis by (simp add: queries_list_def)
qed

text \<open>
  C6. For every company and role (empty ones included), whatever \<open>str.upper\<close> maps
  a role to and whatever order the set is enumerated in, \<open>build_queries\<close> returns the distinct queries of the list it built,
  without duplicates, at least 5 and at most \<open>5 \<times> (1 + N)\<close> of them, where \<open>N\<close> is the
  number of aliases the table holds for the role and its \<open>&\<close>-separated parts.
\<close>

theorem build_queries_size:
  assumes "set_order_ok (set_order e)"
  shows "distinct (build_queries e company role)
         \<and> 5 \<le> length (build_queries e company role)
         \<and> length (build_queries e company role) \<le> 5 * (1 + alias_count e role)
         \<and> set (build_queries e company role) = set (queries_list e company role)"
proof -
  let ?qs = "queries_list e company role"
  let ?f = "set_order e"
  from assms have d: "distinct (?f ?qs)" and s: "set (?f ?qs) = set ?qs"
    by (simp_all add: set_order_ok_def)
  from d have len: "length (?f ?qs) = card (set ?qs)"
    using s distinct_card by fastforce
  have upper_bound: "card (set ?qs) \<le> 5 * (1 + alias_count e role)"
    using card_length [of ?qs] by (simp add: length_queries_list)
  have "card (set (variant_queries company role)) = 5"
    using distinct_card [OF distinct_variant_queries] by (simp add: length_variant_queries)
  moreover have "card (set (variant_queries company role)) \<le> card (set ?qs)"
    by (rule card_mono) (simp_all add: variant_queries_subset)
  ultimately have lower_bound: "5 \<le> card (set ?qs)" by simp
  from d s len upper_bound lower_bound show ?thesis
    by (simp add: build_queries_def)
qed

lemma set_order_ok_stub: "set_order_ok (set_order stub_env)"
  by (simp add: ascii_def stub_env_def set_order_ok_def)

theorem build_queries_size_witness:
  "set_order_ok (set_order stub_env)
   \<and> alias_count stub_env (ascii ''ceo'') = 2
   \<and> distinct (build_queries stub_env (ascii ''Acme'') (ascii ''ceo''))
   \<and> 5 \<le> length (build_queries stub_env (ascii ''Acme'') (ascii ''ceo''))
   \<and> length (build_queries stub_env (ascii ''Acme'') (ascii ''ceo'')) \<le> 15
   \<and> strip ([0xA0] @ ascii ''CTO'') = ascii ''CTO''
   \<and> alias_count stub_env (ascii ''CEO'' @ [0xA0] @ ascii ''&'' @ [0xA0] @ ascii ''CTO'') = 4
   \<and> length (build_queries stub_env (ascii ''Acme'')
                (ascii ''CEO'' @ [0xA0] @ ascii ''&'' @ [0xA0] @ ascii ''CTO'')) = 25"
proof -
  have n: "alias_count stub_env (ascii ''ceo'') = 2"
    by (simp add: alias_count_def aliases_get_def aliases_def stub_env_def contains.simps
        char_class_defs)
  have st: "strip ([0xA0] @ ascii ''CTO'') = ascii ''CTO''"
    by (simp add: strip_def char_class_defs)
  have m: "alias_count stub_env (ascii ''CEO'' @ [0xA0] @ ascii ''&'' @ [0xA0] @ ascii ''CTO'') = 4"
    by (simp add: alias_count_def aliases_get_def aliases_def stub_env_def split_on_def strip_def
        char_class_defs)
  have l: "length (build_queries stub_env (ascii ''Acme'')
                (ascii ''CEO'' @ [0xA0] @ ascii ''&'' @ [0xA0] @ ascii ''CTO'')) = 25"
    by (simp add: build_queries_def queries_list_def role_variants_def variant_queries_def
        aliases_get_def aliases_def stub_env_def split_on_def strip_def char_class_defs)
  from build_queries_size [OF set_order_ok_stub, of "ascii ''Acme''" "ascii ''ceo''"]
  have "distinct (build_queries stub_env (ascii ''Acme'') (ascii ''ceo''))"
    and "5 \<le> length (build_queries stub_env (ascii ''Acme'') (ascii ''ceo''))"
    and "length (build_queries stub_env (ascii ''Acme'') (ascii ''ceo'')) \<le> 15"
    unfolding n by simp_all
  with set_order_ok_stub n st m l show ?thesis by (intro conjI)
qed

subsection \<open>Search aggregator\<close>

lemma unique_loop_acc: "unique_loop rs seen acc = acc @ unique_loop rs seen []"
proof (induction rs arbitrary: seen acc)
  case Nil
  then show ?case by simp
next
  case (Cons r rs)
  have step: "unique_loop rs sn (acc @ [r]) = acc @ unique_loop rs sn [r]" for sn
    using Cons [of sn "acc @ [r]"] Cons [of sn "[r]"] by simp
  show ?case
    using Cons [of seen acc] step
    by (simp split: option.splits)
qed

lemma unique_loop_Cons:
  "unique_loop (r # rs) seen [] =
     (case href_or_url r of
        None \<Rightarrow> unique_loop rs seen []
      | Some u \<Rightarrow> if u \<noteq> [] \<and> u \<notin> seen then r # unique_loop rs (insert u seen) []
                  else unique_loop rs seen [])"
  using unique_loop_acc [of rs _ "[r]"]
  by (simp split: option.splits)

declare unique_loop.simps(2) [simp del]

lemma unique_loop_subseq: "subseq (unique_loop rs seen []) rs"
  by (induction rs arbitrary: seen) (auto simp: unique_loop_Cons split: option.splits)

lemma unique_loop_fresh:
  "r \<in> set (unique_loop rs seen []) \<Longrightarrow> \<exists>u. href_or_url r = Some u \<and> u \<noteq> [] \<and> u \<notin> seen"
proof (induction rs arbitrary: seen)
  case Nil
  then show ?case by simp
next
  case (Cons a rs)
  then show ?case
    by (fastforce simp: unique_loop_Cons split: option.splits if_splits)
qed

lemma unique_loop_distinct: "distinct (map href_or_url (unique_loop rs seen []))"
proof (induction rs arbitrary: seen)
  case Nil
  then show ?case by simp
next
  case (Cons a rs)
  show ?case
  proof (cases "href_or_url a")
    case None
    with Cons show ?thesis by (simp add: unique_loop_Cons)
  next
    case (Some u)
    show ?thesis
    proof (cases "u \<noteq> [] \<and> u \<notin> seen")
      case True
      have "Some u \<notin> href_or_url ` set (unique_loop rs (insert u seen) [])"
        using unique_loop_fresh [of _ rs "insert u seen"] by force
      with Some True Cons show ?thesis by (simp add: unique_loop_Cons)
    next
      case False
      with Some Cons show ?thesis by (auto simp: unique_loop_Cons)
    qed
  qed
qed

lemma unique_loop_complete:
  "r \<in> set rs \<Longrightarrow> href_or_url r = Some u \<Longrightarrow> u \<noteq> [] \<Longrightarrow> u \<notin> seen
   \<Longrightarrow> \<exists>k \<in> set (unique_loop rs seen []). href_or_url k = Some u"
proof (induction rs arbitrary: seen)
  case Nil
  then show ?case by simp
next
  case (Cons a rs)
  show ?case
  proof (cases "href_or_url a = Some u")
    case True
    with Cons.prems show ?thesis by (simp add: unique_loop_Cons)
  next
    case False
    with Cons.prems have "r \<in> set rs" by auto
    with Cons.IH Cons.prems False show ?thesis
      by (auto simp: unique_loop_Cons split: option.splits)
  qed
qed

lemma unique_loop_first:
  "k \<in> set (unique_loop rs seen []) \<Longrightarrow> find (\<lambda>x. href_or_url x = href_or_url k) rs = Some k"
proof (induction rs arbitrary: seen)
  case Nil
  then show ?case by simp
next
  case (Cons a rs)
  obtain u where u: "href_or_url k = Some u" "u \<noteq> []" "u \<notin> seen"
    using unique_loop_fresh [OF Cons.prems] by blast
  show ?case
  proof (cases "href_or_url a")
    case None
    with Cons u show ?thesis by (simp add: unique_loop_Cons)
  next
    case (Some v)
    show ?thesis
    proof (cases "v \<noteq> [] \<and> v \<notin> seen")
      case True
      with Some Cons.prems have "k = a \<or> k \<in> set (unique_loop rs (insert v seen) [])"
        by (simp add: unique_loop_Cons)
      then show ?thesis
      proof
        assume "k = a"
        then show ?thesis by simp
      next
        assume in_rest: "k \<in> set (unique_loop rs (insert v seen) [])"
        then have "href_or_url a \<noteq> href_or_url k"
          using unique_loop_fresh [OF in_rest] Some by auto
        with Cons.IH [OF in_rest] show ?thesis by simp
      qed
    next
      case False
      with Some Cons.prems have in_rest: "k \<in> set (unique_loop rs seen [])"
        by (auto simp: unique_loop_Cons)
      from False u Some have "href_or_url a \<noteq> href_or_url k" by auto
      with Cons.IH [OF in_rest] show ?thesis by simp
    qed
  qed
qed

lemma search_brave_disabled: "\<not> USE_BRAVE e \<Longrightarrow> search_brave e query n s = ([], s)"
  by (simp add: search_brave_def)

text \<open>
  C8. \<open>search_all_engines\<close> works on the primary provider's results followed by the
  secondary provider's (none when the secondary provider is disabled). What it returns
  is a subsequence of that concatenation (the relative order is kept), holds only
  results with a URL, holds no URL twice, holds every URL of the concatenation, and
  holds for each URL the first result of the concatenation that carries it.
\<close>

theorem search_all_engines_merge:
  assumes "search_duckduckgo e query 20 s = (primary, s1)"
    and "search_brave e query 20 s1 = (secondary, s2)"
  shows "\<exists>kept. search_all_engines e query s = (kept, s2)
           \<and> (\<not> USE_BRAVE e \<longrightarrow> secondary = [])
           \<and> subseq kept (primary @ secondary)
           \<and> (\<forall>r \<in> set kept. truthy (href_or_url r))
           \<and> distinct (map href_or_url kept)
           \<and> (\<forall>r \<in> set (primary @ secondary). truthy (href_or_url r) \<longrightarrow>
                 (\<exists>k \<in> set kept. href_or_url k = href_or_url r))
           \<and> (\<forall>k \<in> set kept. find (\<lambda>x. href_or_url x = href_or_url k) (primary @ secondary) = Some k)"
proof -
  let ?all = "primary @ secondary"
  let ?kept = "unique_loop ?all {} []"
  have off: "\<not> USE_BRAVE e \<longrightarrow> secondary = [] \<and> s2 = s1"
    using assms(2) by (auto simp: search_brave_disabled)
  have run: "search_all_engines e query s = (?kept, s2)"
    using assms off by (auto simp: search_all_engines_def)
  have has_url: "\<forall>r \<in> set ?kept. truthy (href_or_url r)"
    using unique_loop_fresh [of _ ?all "{}"] by fastforce
  have complete: "\<forall>r \<in> set ?all. truthy (href_or_url r) \<longrightarrow>
                 (\<exists>k \<in> set ?kept. href_or_url k = href_or_url r)"
  proof (intro ballI impI)
    fix r assume r: "r \<in> set ?all" "truthy (href_or_url r)"
    then obtain u where "href_or_url r = Some u" "u \<noteq> []"
      by (cases "href_or_url r") auto
    with unique_loop_complete [OF r(1), of u "{}"]
    show "\<exists>k \<in> set ?kept. href_or_url k = href_or_url r" by simp
  qed
  from run off has_url complete unique_loop_subseq [of ?all "{}"]
    unique_loop_distinct [of ?all "{}"] unique_loop_first [of _ ?all "{}"]
  show ?thesis by blast
qed


theorem search_all_engines_merge_witness:
  "fst (search_duckduckgo stub_env (ascii ''q'') 20 empty_state) = stub_results
   \<and> fst (search_brave stub_env (ascii ''q'') 20 (snd (search_duckduckgo stub_env (ascii ''q'') 20 empty_state)))
       = map brave_result stub_items
   \<and> (\<exists>kept. fst (search_all_engines stub_env (ascii ''q'') empty_state) = kept
         \<and> subseq kept (stub_results @ map brave_result stub_items)
         \<and> distinct (map href_or_url kept))
   \<and> fst (search_all_engines stub_env (ascii ''q'') empty_state)
       = [stub_results ! 0, stub_results ! 1, stub_results ! 4]"
proof -
  let ?s1 = "snd (search_duckduckgo stub_env (ascii ''q'') 20 empty_state)"
  let ?s2 = "snd (search_brave stub_env (ascii ''q'') 20 ?s1)"
  have f1: "fst (search_duckduckgo stub_env (ascii ''q'') 20 empty_state) = stub_results"
    by (simp add: ascii_def search_duckduckgo_def stub_env_def empty_state_def cache_key_def)
  have f2: "fst (search_brave stub_env (ascii ''q'') 20 ?s1) = map brave_result stub_items"
    by (simp add: ascii_def search_brave_def search_duckduckgo_def stub_env_def empty_state_def
        cache_key_def Let_def)
  have h1: "search_duckduckgo stub_env (ascii ''q'') 20 empty_state = (stub_results, ?s1)"
    using f1 by (metis prod.collapse)
  have h2: "search_brave stub_env (ascii ''q'') 20 ?s1 = (map brave_result stub_items, ?s2)"
    using f2 by (metis prod.collapse)
  from search_all_engines_merge [OF h1 h2]
  obtain kept where kept: "search_all_engines stub_env (ascii ''q'') empty_state = (kept, ?s2)"
    "subseq kept (stub_results @ map brave_result stub_items)"
    "distinct (map href_or_url kept)"
    by blast
  from kept have merged: "\<exists>kept. fst (search_all_engines stub_env (ascii ''q'') empty_state) = kept
         \<and> subseq kept (stub_results @ map brave_result stub_items)
         \<and> distinct (map href_or_url kept)"
    by (metis fst_conv)
  have run: "fst (search_all_engines stub_env (ascii ''q'') empty_state)
       = [stub_results ! 0, stub_results ! 1, stub_results ! 4]"
    by (simp add: ascii_def search_all_engines_def search_duckduckgo_def search_brave_def stub_env_def
        empty_state_def cache_key_def stub_results_def stub_items_def brave_result_def
        href_or_url_def unique_loop.simps Let_def)
  from f1 f2 merged run show ?thesis by blast
qed

subsection \<open>Cache\<close>

lemma search_duckduckgo_hit:
  "cache_search s (cache_key e [ascii ''ddg'', q]) = Some v
   \<Longrightarrow> search_duckduckgo e q n s = (v, s\<lparr>logged := logged s @ [Cache_hit_ddg q]\<rparr>)"
  by (simp add: search_duckduckgo_def)

lemma search_duckduckgo_returns_stored:
  "search_duckduckgo e q n s = (r, s1) \<Longrightarrow> cache_search s1 (cache_key e [ascii ''ddg'', q]) = Some v
   \<Longrightarrow> r = v"
  by (auto simp: search_duckduckgo_def Let_def split: option.splits)

lemma search_brave_hit:
  "USE_BRAVE e \<Longrightarrow> cache_search s (cache_key e [ascii ''brave'', q]) = Some v
   \<Longrightarrow> search_brave e q n s = (v, s\<lparr>logged := logged s @ [Cache_hit_brave q]\<rparr>)"
  by (simp add: search_brave_def)

lemma search_brave_returns_stored:
  "USE_BRAVE e \<Longrightarrow> search_brave e q n s = (r, s1)
   \<Longrightarrow> cache_search s1 (cache_key e [ascii ''brave'', q]) = Some v \<Longrightarrow> r = v"
  by (auto simp: search_brave_def Let_def split: option.splits brave_reply.splits if_splits)

lemma fetch_page_text_hit:
  "cache_page s (cache_key e [ascii ''page'', u]) = Some v
   \<Longrightarrow> fetch_page_text e u m s = (v, s\<lparr>logged := logged s @ [Cache_hit_page u]\<rparr>)"
  by (simp add: fetch_page_text_def)

lemma fetch_page_text_stores:
  "fetch_page_text e u m s = (t, s1) \<Longrightarrow> cache_page s1 (cache_key e [ascii ''page'', u]) = Some t"
  by (auto simp: fetch_page_text_def Let_def split: option.splits page_reply.splits if_splits)

text \<open>
  C9. When the cache holds a value for the key after a first call of
  \<open>search_duckduckgo\<close> (or of \<open>search_brave\<close>, the provider being enabled), the first
  call returned that value, and a second call for the same query returns it again and
  leaves the state as it was but for one log line: the provider is not called and the
  cache is not written. A first call of \<open>fetch_page_text\<close> always leaves its result in
  the cache, and a second call for the same URL returns it without a fetch.
\<close>

theorem cache_idempotence:
  "(search_duckduckgo e q n s = (r, sa) \<and> cache_search sa (cache_key e [ascii ''ddg'', q]) = Some v
      \<longrightarrow> search_duckduckgo e q n' sa = (v, sa\<lparr>logged := logged sa @ [Cache_hit_ddg q]\<rparr>)
          \<and> r = v
          \<and> ddg_calls (snd (search_duckduckgo e q n' sa)) = ddg_calls sa)
   \<and> (USE_BRAVE e \<and> search_brave e q n b = (rb, ba)
        \<and> cache_search ba (cache_key e [ascii ''brave'', q]) = Some vb
      \<longrightarrow> search_brave e q n' ba = (vb, ba\<lparr>logged := logged ba @ [Cache_hit_brave q]\<rparr>)
          \<and> rb = vb
          \<and> brave_calls (snd (search_brave e q n' ba)) = brave_calls ba)
   \<and> (fetch_page_text e u m p = (t, pa)
      \<longrightarrow> cache_page pa (cache_key e [ascii ''page'', u]) = Some t
          \<and> fetch_page_text e u m' pa = (t, pa\<lparr>logged := logged pa @ [Cache_hit_page u]\<rparr>)
          \<and> page_calls (snd (fetch_page_text e u m' pa)) = page_calls pa)"
proof (intro conjI impI)
  assume a: "search_duckduckgo e q n s = (r, sa) \<and> cache_search sa (cache_key e [ascii ''ddg'', q]) = Some v"
  then show "search_duckduckgo e q n' sa = (v, sa\<lparr>logged := logged sa @ [Cache_hit_ddg q]\<rparr>)"
    by (simp add: search_duckduckgo_hit)
  then show "ddg_calls (snd (search_duckduckgo e q n' sa)) = ddg_calls sa" by simp
  from a show "r = v" by (blast intro: search_duckduckgo_returns_stored)
next
  assume a: "USE_BRAVE e \<and> search_brave e q n b = (rb, ba)
        \<and> cache_search ba (cache_key e [ascii ''brave'', q]) = Some vb"
  then show "search_brave e q n' ba = (vb, ba\<lparr>logged := logged ba @ [Cache_hit_brave q]\<rparr>)"
    by (simp add: search_brave_hit)
  then show "brave_calls (snd (search_brave e q n' ba)) = brave_calls ba" by simp
  from a show "rb = vb" by (blast intro: search_brave_returns_stored)
next
  assume a: "fetch_page_text e u m p = (t, pa)"
  then show c: "cache_page pa (cache_key e [ascii ''page'', u]) = Some t"
    by (rule fetch_page_text_stores)
  then show "fetch_page_text e u m' pa = (t, pa\<lparr>logged := logged pa @ [Cache_hit_page u]\<rparr>)"
    by (rule fetch_page_text_hit)
  then show "page_calls (snd (fetch_page_text e u m' pa)) = page_calls pa" by simp
qed

theorem cache_idempotence_witness:
  "cache_search (snd (search_duckduckgo stub_env (ascii ''q'') 20 empty_state)) (cache_key stub_env [ascii ''ddg'', ascii ''q''])
     = Some stub_results
   \<and> fst (search_duckduckgo stub_env (ascii ''q'') 20 (snd (search_duckduckgo stub_env (ascii ''q'') 20 empty_state)))
     = stub_results
   \<and> ddg_calls (snd (search_duckduckgo stub_env (ascii ''q'') 20 (snd (search_duckduckgo stub_env (ascii ''q'') 20 empty_state))))
     = [ascii ''q'']
   \<and> USE_BRAVE stub_env
   \<and> cache_search (snd (search_brave stub_env (ascii ''q'') 20 empty_state)) (cache_key stub_env [ascii ''brave'', ascii ''q''])
     = Some (map brave_result stub_items)
   \<and> fst (search_brave stub_env (ascii ''q'') 20 (snd (search_brave stub_env (ascii ''q'') 20 empty_state)))
     = map brave_result stub_items
   \<and> brave_calls (snd (search_brave stub_env (ascii ''q'') 20 (snd (search_brave stub_env (ascii ''q'') 20 empty_state))))
     = [ascii ''q'']
   \<and> fst (fetch_page_text stub_env (ascii ''u'') 5000 empty_state) = []
   \<and> fst (fetch_page_text stub_env (ascii ''u'') 5000 (snd (fetch_page_text stub_env (ascii ''u'') 5000 empty_state))) = []
   \<and> page_calls (snd (fetch_page_text stub_env (ascii ''u'') 5000 (snd (fetch_page_text stub_env (ascii ''u'') 5000 empty_state))))
     = [ascii ''u'']"
proof -
  let ?d1 = "snd (search_duckduckgo stub_env (ascii ''q'') 20 empty_state)"
  let ?b1 = "snd (search_brave stub_env (ascii ''q'') 20 empty_state)"
  let ?p1 = "snd (fetch_page_text stub_env (ascii ''u'') 5000 empty_state)"
  have d_fst: "fst (search_duckduckgo stub_env (ascii ''q'') 20 empty_state) = stub_results"
    and d_cache: "cache_search ?d1 (cache_key stub_env [ascii ''ddg'', ascii ''q'']) = Some stub_results"
    and d_calls: "ddg_calls ?d1 = [ascii ''q'']"
    by (simp_all add: ascii_def search_duckduckgo_def stub_env_def empty_state_def cache_key_def)
  have b_on: "USE_BRAVE stub_env"
    and b_fst: "fst (search_brave stub_env (ascii ''q'') 20 empty_state) = map brave_result stub_items"
    and b_cache: "cache_search ?b1 (cache_key stub_env [ascii ''brave'', ascii ''q''])
                    = Some (map brave_result stub_items)"
    and b_calls: "brave_calls ?b1 = [ascii ''q'']"
    by (simp_all add: ascii_def search_brave_def stub_env_def empty_state_def cache_key_def Let_def)
  have p_fst: "fst (fetch_page_text stub_env (ascii ''u'') 5000 empty_state) = []"
    and p_calls: "page_calls ?p1 = [ascii ''u'']"
    by (simp_all add: ascii_def fetch_page_text_def stub_env_def empty_state_def cache_key_def Let_def)
  have d_run: "search_duckduckgo stub_env (ascii ''q'') 20 empty_state = (stub_results, ?d1)"
    using d_fst by (metis prod.collapse)
  have b_run: "search_brave stub_env (ascii ''q'') 20 empty_state = (map brave_result stub_items, ?b1)"
    using b_fst by (metis prod.collapse)
  have p_run: "fetch_page_text stub_env (ascii ''u'') 5000 empty_state = ([], ?p1)"
    using p_fst by (metis prod.collapse)
  note inst = cache_idempotence [where e = stub_env and q = "(ascii ''q'')" and n = 20 and n' = 20
      and s = empty_state and r = stub_results and sa = ?d1 and v = stub_results
      and b = empty_state and rb = "map brave_result stub_items" and ba = ?b1
      and vb = "map brave_result stub_items"
      and u = "(ascii ''u'')" and m = 5000 and m' = 5000 and p = empty_state and t = "[]" and pa = ?p1]
  from inst d_run d_cache
  have d2: "search_duckduckgo stub_env (ascii ''q'') 20 ?d1
              = (stub_results, ?d1\<lparr>logged := logged ?d1 @ [Cache_hit_ddg (ascii ''q'')]\<rparr>)"
    and d3: "ddg_calls (snd (search_duckduckgo stub_env (ascii ''q'') 20 ?d1)) = ddg_calls ?d1"
    by blast+
  from inst b_on b_run b_cache
  have b2: "search_brave stub_env (ascii ''q'') 20 ?b1
              = (map brave_result stub_items, ?b1\<lparr>logged := logged ?b1 @ [Cache_hit_brave (ascii ''q'')]\<rparr>)"
    and b3: "brave_calls (snd (search_brave stub_env (ascii ''q'') 20 ?b1)) = brave_calls ?b1"
    by blast+
  from inst p_run
  have p2: "fetch_page_text stub_env (ascii ''u'') 5000 ?p1
              = ([], ?p1\<lparr>logged := logged ?p1 @ [Cache_hit_page (ascii ''u'')]\<rparr>)"
    and p3: "page_calls (snd (fetch_page_text stub_env (ascii ''u'') 5000 ?p1)) = page_calls ?p1"
    by blast+
  have d4: "fst (search_duckduckgo stub_env (ascii ''q'') 20 ?d1) = stub_results"
    by (simp only: d2 fst_conv)
  have b4: "fst (search_brave stub_env (ascii ''q'') 20 ?b1) = map brave_result stub_items"
    by (simp only: b2 fst_conv)
  have p4: "fst (fetch_page_text stub_env (ascii ''u'') 5000 ?p1) = []"
    by (simp only: p2 fst_conv)
  from d_cache d4 d3 [unfolded d_calls] b_on b_cache b4 b3 [unfolded b_calls]
    p_fst p4 p3 [unfolded p_calls]
  show ?thesis by (intro conjI)
qed

subsection \<open>Query loop\<close>

lemma issued_append: "issued (xs @ ys) = issued xs @ issued ys"
  by (induction xs rule: issued.induct) auto

lemma issued_search_duckduckgo:
  "issued_queries (snd (search_duckduckgo e q n s)) = issued_queries s"
  by (simp add: search_duckduckgo_def issued_queries_def issued_append Let_def split: option.splits)

lemma issued_search_brave:
  "issued_queries (snd (search_brave e q n s)) = issued_queries s"
  by (simp add: search_brave_def issued_queries_def issued_append Let_def
      split: option.splits brave_reply.splits)

lemma issued_search_all_engines:
  "issued_queries (snd (search_all_engines e q s)) = issued_queries s"
proof -
  obtain r1 s1 where a: "search_duckduckgo e q 20 s = (r1, s1)" by (cases "search_duckduckgo e q 20 s")
  obtain r2 s2 where b: "search_brave e q 20 s1 = (r2, s2)" by (cases "search_brave e q 20 s1")
  from issued_search_duckduckgo [of e q 20 s] a have "issued_queries s1 = issued_queries s" by simp
  moreover from issued_search_brave [of e q 20 s1] b have "issued_queries s2 = issued_queries s1" by simp
  ultimately show ?thesis using a b by (simp add: search_all_engines_def)
qed

lemma issued_fetch_page_text:
  "issued_queries (snd (fetch_page_text e u m s)) = issued_queries s"
  by (simp add: fetch_page_text_def issued_queries_def issued_append Let_def
      split: option.splits page_reply.splits)

lemma issued_record_name:
  "issued_queries (snd (record_name e nc name u s)) = issued_queries s"
  by (simp add: record_name_def split: sum.splits)

lemma issued_from_page:
  "issued_queries (snd (from_page e company role u s nc)) = issued_queries s"
proof -
  obtain t s1 where f: "fetch_page_text e u 5000 s = (t, s1)" by (cases "fetch_page_text e u 5000 s")
  with issued_fetch_page_text [of e u 5000 s] have s1: "issued_queries s1 = issued_queries s" by simp
  have logline: "issued_queries (s1\<lparr>logged := logged s1 @ [Found_in_page x u]\<rparr>) = issued_queries s1" for x
    by (simp add: issued_queries_def issued_append)
  show ?thesis
    using f s1 logline issued_record_name
    by (simp add: from_page_def split: option.splits)
qed

lemma issued_process_result:
  "issued_queries (snd (process_result e company role res s nc)) = issued_queries s"
proof -
  have logline: "issued_queries (s\<lparr>logged := logged s @ [Found_in_snippet x u]\<rparr>) = issued_queries s" for x u
    by (simp add: issued_queries_def issued_append)
  show ?thesis
    using logline issued_record_name issued_from_page
    by (simp add: process_result_def split: option.splits)
qed

lemma issued_process_results:
  "issued_queries (snd (process_results e company role rs s nc)) = issued_queries s"
proof (induction rs arbitrary: s nc)
  case Nil
  then show ?case by simp
next
  case (Cons r rs)
  obtain out s1 where p: "process_result e company role r s nc = (out, s1)"
    by (cases "process_result e company role r s nc")
  with issued_process_result [of e company role r s nc] have "issued_queries s1 = issued_queries s"
    by simp
  with p Cons show ?case by (cases out) simp_all
qed

lemma issued_run_query:
  "issued_queries (snd (run_query e company role q s nc)) = issued_queries s @ [q]"
proof -
  let ?s1 = "s\<lparr>logged := logged s @ [Running_query q]\<rparr>"
  obtain rs s2 where a: "search_all_engines e q ?s1 = (rs, s2)" by (cases "search_all_engines e q ?s1")
  with issued_search_all_engines [of e q ?s1] have "issued_queries s2 = issued_queries s @ [q]"
    by (simp add: issued_queries_def issued_append)
  with a issued_process_results [of e company role rs s2 nc] show ?thesis
    by (simp add: run_query_def)
qed

lemma issued_query_loop:
  "\<exists>k \<le> length qs. issued_queries (snd (query_loop e company role qs s nc)) = issued_queries s @ take k qs"
proof (induction qs arbitrary: s nc)
  case Nil
  then show ?case by simp
next
  case (Cons q qs)
  obtain out s1 where r: "run_query e company role q s nc = (out, s1)"
    by (cases "run_query e company role q s nc")
  with issued_run_query [of e company role q s nc] have s1: "issued_queries s1 = issued_queries s @ [q]"
    by simp
  show ?case
  proof (cases out)
    case (Inl err)
    with r s1 have "issued_queries (snd (query_loop e company role (q # qs) s nc))
                      = issued_queries s @ take 1 (q # qs)" by simp
    then show ?thesis by (intro exI [of _ 1]) simp
  next
    case (Inr nc1)
    show ?thesis
    proof (cases "stop_condition nc1")
      case True
      with r s1 Inr have "issued_queries (snd (query_loop e company role (q # qs) s nc))
                      = issued_queries s @ take 1 (q # qs)" by simp
      then show ?thesis by (intro exI [of _ 1]) simp
    next
      case False
      from Cons [of s1 nc1] obtain k where k: "k \<le> length qs"
        "issued_queries (snd (query_loop e company role qs s1 nc1)) = issued_queries s1 @ take k qs"
        by blast
      with r s1 Inr False have "issued_queries (snd (query_loop e company role (q # qs) s nc))
                      = issued_queries s @ take (Suc k) (q # qs)" by simp
      with k(1) show ?thesis by (intro exI [of _ "Suc k"]) simp
    qed
  qed
qed

lemma query_loop_stops:
  assumes "query_loop e company role pre s nc = (Inr nc1, s1)" and "stop_condition nc1" and "pre \<noteq> []"
  shows "query_loop e company role (pre @ rest) s nc = (Inr nc1, s1)"
  using assms
proof (induction pre arbitrary: s nc)
  case Nil
  then show ?case by simp
next
  case (Cons q pre)
  obtain out s2 where r: "run_query e company role q s nc = (out, s2)"
    by (cases "run_query e company role q s nc")
  show ?case
  proof (cases out)
    case (Inl err)
    with r Cons.prems show ?thesis by simp
  next
    case (Inr nc2)
    show ?thesis
    proof (cases "stop_condition nc2")
      case True
      with r Inr Cons.prems show ?thesis by simp
    next
      case False
      with r Inr Cons.prems have rest_run: "query_loop e company role pre s2 nc2 = (Inr nc1, s1)"
        by simp
      have "pre \<noteq> []"
      proof
        assume "pre = []"
        with rest_run have "nc2 = nc1" by simp
        with False Cons.prems(2) show False by simp
      qed
      from Cons.IH [OF rest_run Cons.prems(2) this] r Inr False show ?thesis by simp
    qed
  qed
qed


text \<open>
  C7. When the loop, run over a non-empty list of queries, ends with candidates that
  meet the stop condition (at least 2 names and at least 3 contributions in all), the
  loop run over that list followed by any further queries ends with the same
  candidates in the same state: none of the further queries is issued, no provider is
  asked and nothing more is logged. The queries issued are an initial stretch of the
  list.
\<close>

theorem early_stop:
  assumes "query_loop e company role pre s nc = (Inr nc1, s1)"
    and "2 \<le> length nc1 \<and> 3 \<le> sum_list (map (\<lambda>(name, sources). length sources) nc1)"
    and "pre \<noteq> []"
  shows "query_loop e company role (pre @ rest) s nc = (Inr nc1, s1)
         \<and> (\<exists>k \<le> length pre. issued_queries s1 = issued_queries s @ take k pre)
         \<and> issued_queries (snd (query_loop e company role (pre @ rest) s nc)) = issued_queries s1"
proof -
  from assms(2) have stop: "stop_condition nc1" by (simp add: stop_condition_def)
  have same: "query_loop e company role (pre @ rest) s nc = (Inr nc1, s1)"
    by (rule query_loop_stops [OF assms(1) stop assms(3)])
  from issued_query_loop [of pre e company role s nc] assms(1)
  have "\<exists>k \<le> length pre. issued_queries s1 = issued_queries s @ take k pre" by simp
  with same show ?thesis by simp
qed

lemmas stub_run_defs = run_query_def search_all_engines_def search_duckduckgo_def search_brave_def
  stub_env_def empty_state_def cache_key_def stub_results_def stub_items_def brave_result_def
  href_or_url_def unique_loop.simps Let_def process_result_def from_page_def record_name_def
  extract_name_from_snippet_def extract_name_from_text_def extract_name_with_ner_def
  is_likely_name_def split_def char_class_defs blacklist_def source_credibility_def
  credibility_of_domain_def stub_netloc_def trusted_def fetch_page_text_def
  stop_condition_def

lemma stub_first_query:
  "fst (query_loop stub_env (ascii ''Acme'') (ascii ''ceo'') [ascii ''q1''] empty_state []) = Inr stub_candidates"
  by (simp add: stub_run_defs stub_candidates_def)


lemma stub_first_query_issued:
  "issued_queries (snd (query_loop stub_env (ascii ''Acme'') (ascii ''ceo'') [ascii ''q1''] empty_state [])) = [ascii ''q1'']"
  by (simp add: stub_run_defs issued_queries_def)

theorem early_stop_witness:
  "fst (query_loop stub_env (ascii ''Acme'') (ascii ''ceo'') [ascii ''q1''] empty_state []) = Inr stub_candidates
   \<and> 2 \<le> length stub_candidates
   \<and> 3 \<le> sum_list (map (\<lambda>(name, sources). length sources) stub_candidates)
   \<and> query_loop stub_env (ascii ''Acme'') (ascii ''ceo'') ([ascii ''q1''] @ [ascii ''q2'', ascii ''q3'']) empty_state []
       = query_loop stub_env (ascii ''Acme'') (ascii ''ceo'') [ascii ''q1''] empty_state []
   \<and> issued_queries (snd (query_loop stub_env (ascii ''Acme'') (ascii ''ceo'') ([ascii ''q1''] @ [ascii ''q2'', ascii ''q3'']) empty_state []))
       = [ascii ''q1'']"
proof -
  let ?s1 = "snd (query_loop stub_env (ascii ''Acme'') (ascii ''ceo'') [ascii ''q1''] empty_state [])"
  have run: "query_loop stub_env (ascii ''Acme'') (ascii ''ceo'') [ascii ''q1''] empty_state [] = (Inr stub_candidates, ?s1)"
    using stub_first_query by (metis prod.collapse)
  have enough: "2 \<le> length stub_candidates
                \<and> 3 \<le> sum_list (map (\<lambda>(name, sources). length sources) stub_candidates)"
    by (simp add: ascii_def stub_candidates_def)
  have nonempty: "[ascii ''q1''] \<noteq> []" by simp
  from early_stop [OF run enough nonempty, of "[ascii ''q2'', ascii ''q3'']"]
  have same: "query_loop stub_env (ascii ''Acme'') (ascii ''ceo'') ([ascii ''q1''] @ [ascii ''q2'', ascii ''q3'']) empty_state []
                = (Inr stub_candidates, ?s1)"
    and log: "issued_queries (snd (query_loop stub_env (ascii ''Acme'') (ascii ''ceo'') ([ascii ''q1''] @ [ascii ''q2'', ascii ''q3''])
                empty_state [])) = issued_queries ?s1"
    by blast+
  from same run have eq: "query_loop stub_env (ascii ''Acme'') (ascii ''ceo'') ([ascii ''q1''] @ [ascii ''q2'', ascii ''q3'']) empty_state []
       = query_loop stub_env (ascii ''Acme'') (ascii ''ceo'') [ascii ''q1''] empty_state []"
    by (rule trans [OF _ sym])
  from log stub_first_query_issued
  have log1: "issued_queries (snd (query_loop stub_env (ascii ''Acme'') (ascii ''ceo'') ([ascii ''q1''] @ [ascii ''q2'', ascii ''q3''])
                empty_state [])) = [ascii ''q1'']"
    by (rule trans)
  from stub_first_query enough eq log1 show ?thesis by (intro conjI) blast+
qed

subsection \<open>No results\<close>

lemma quiet_search_duckduckgo:
  assumes "no_results e" and "cache_holds_no_results s"
  shows "fst (search_duckduckgo e q n s) = [] \<and> cache_holds_no_results (snd (search_duckduckgo e q n s))"
proof -
  from assms(1) have "ddgs_text e (ddg_calls s) q n = None \<or> ddgs_text e (ddg_calls s) q n = Some []"
    by (simp add: no_results_def)
  with assms(2) show ?thesis
    by (auto simp: search_duckduckgo_def cache_holds_no_results_def Let_def split: option.splits)
qed

lemma quiet_search_brave:
  assumes "no_results e" and "cache_holds_no_results s"
  shows "fst (search_brave e q n s) = [] \<and> cache_holds_no_results (snd (search_brave e q n s))"
proof -
  from assms(1) have "\<forall>items. brave_get e (brave_calls s) q n = Brave_response 200 (Some items) \<longrightarrow> items = []"
    by (simp add: no_results_def)
  with assms(2) show ?thesis
    by (auto simp: search_brave_def cache_holds_no_results_def Let_def
        split: option.splits brave_reply.splits)
qed

lemma quiet_search_all_engines:
  assumes "no_results e" and "cache_holds_no_results s"
  shows "fst (search_all_engines e q s) = [] \<and> cache_holds_no_results (snd (search_all_engines e q s))"
proof -
  obtain r1 s1 where a: "search_duckduckgo e q 20 s = (r1, s1)" by (cases "search_duckduckgo e q 20 s")
  with quiet_search_duckduckgo [OF assms, of q 20] have a': "r1 = []" "cache_holds_no_results s1"
    by simp_all
  obtain r2 s2 where b: "search_brave e q 20 s1 = (r2, s2)" by (cases "search_brave e q 20 s1")
  with quiet_search_brave [OF assms(1) a'(2), of q 20] have b': "r2 = []" "cache_holds_no_results s2"
    by simp_all
  from a a' b b' show ?thesis by (simp add: search_all_engines_def)
qed

lemma silent_env_no_results: "no_results silent_env"
  by (simp add: ascii_def no_results_def silent_env_def stub_env_def)

lemma empty_state_no_results: "cache_holds_no_results empty_state"
  by (simp add: cache_holds_no_results_def empty_state_def)

lemma nothing_found_query_loop:
  "queries_find_nothing e qs s \<Longrightarrow> fst (query_loop e company role qs s []) = Inr []"
proof (induction qs arbitrary: s)
  case Nil
  then show ?case by simp
next
  case (Cons q qs)
  let ?s1 = "s\<lparr>logged := logged s @ [Running_query q]\<rparr>"
  obtain rs s2 where a: "search_all_engines e q ?s1 = (rs, s2)"
    by (cases "search_all_engines e q ?s1")
  with Cons.prems have rs: "rs = []" and rest: "queries_find_nothing e qs s2" by simp_all
  from a rs have "run_query e company role q s [] = (Inr [], s2)"
    by (simp add: run_query_def)
  with Cons.IH [OF rest] show ?case by (simp add: stop_condition_def)
qed

lemma silent_providers_find_nothing:
  assumes "no_results e"
  shows "cache_holds_no_results s \<Longrightarrow> queries_find_nothing e qs s"
proof (induction qs arbitrary: s)
  case Nil
  then show ?case by simp
next
  case (Cons q qs)
  let ?s1 = "s\<lparr>logged := logged s @ [Running_query q]\<rparr>"
  from Cons.prems have "cache_holds_no_results ?s1" by (simp add: cache_holds_no_results_def)
  from quiet_search_all_engines [OF assms this, of q]
  obtain s2 where a: "search_all_engines e q ?s1 = ([], s2)" and c: "cache_holds_no_results s2"
    by (cases "search_all_engines e q ?s1") auto
  from Cons.IH [OF c] a show ?case by simp
qed

text \<open>
  C2. For every company and role: when every query the loop issues gets zero search
  results, \<open>search\<close> returns the \<open>No credible source found\<close> error result; it
  returns a value and raises nothing. That is the case in particular when both
  providers answer every request with an empty list or a failure and the cache holds
  no results from before.
\<close>

theorem nothing_found_no_source:
  "(queries_find_nothing e (build_queries e company role) s
      \<longrightarrow> fst (search e company role s) =
            Inr [(''error'', JStr (ascii ''No credible source found'')),
                 (''details'', JStr (ascii ''Could not extract any name.''))])
   \<and> (no_results e \<and> cache_holds_no_results s
      \<longrightarrow> queries_find_nothing e (build_queries e company role) s
          \<and> fst (search e company role s) =
            Inr [(''error'', JStr (ascii ''No credible source found'')),
                 (''details'', JStr (ascii ''Could not extract any name.''))])"
proof -
  let ?qs = "build_queries e company role"
  have general: "fst (search e company role s) =
            Inr [(''error'', JStr (ascii ''No credible source found'')),
                 (''details'', JStr (ascii ''Could not extract any name.''))]"
    if "queries_find_nothing e ?qs s"
  proof -
    from nothing_found_query_loop [OF that, of company role]
    obtain s1 where "query_loop e company role ?qs s [] = (Inr [], s1)"
      by (cases "query_loop e company role ?qs s []") auto
    then show ?thesis by (simp add: search_def)
  qed
  have "queries_find_nothing e ?qs s" if "no_results e \<and> cache_holds_no_results s"
    using that silent_providers_find_nothing by blast
  with general show ?thesis by blast
qed

theorem nothing_found_no_source_witness:
  "no_results silent_env \<and> cache_holds_no_results empty_state
   \<and> queries_find_nothing silent_env (build_queries silent_env (ascii ''Acme'') (ascii ''ceo'')) empty_state
   \<and> fst (search silent_env (ascii ''Acme'') (ascii ''ceo'') empty_state) =
           Inr [(''error'', JStr (ascii ''No credible source found'')),
                (''details'', JStr (ascii ''Could not extract any name.''))]"
proof -
  note inst = nothing_found_no_source [of silent_env "(ascii ''Acme'')" "(ascii ''ceo'')" empty_state]
  from inst silent_env_no_results empty_state_no_results
  have "queries_find_nothing silent_env (build_queries silent_env (ascii ''Acme'') (ascii ''ceo'')) empty_state"
    and "fst (search silent_env (ascii ''Acme'') (ascii ''ceo'') empty_state) =
           Inr [(''error'', JStr (ascii ''No credible source found'')),
                (''details'', JStr (ascii ''Could not extract any name.''))]"
    by blast+
  with silent_env_no_results empty_state_no_results show ?thesis by (intro conjI)
qed

subsection \<open>A winner is always found\<close>

lemma credibility_floor: "6 / 10 \<le> credibility_of_domain d"
  by (simp add: credibility_of_domain_def)

lemma source_credibility_floor: "source_credibility e u = Inr c \<Longrightarrow> 6 / 10 \<le> c"
  using credibility_floor by (auto simp: source_credibility_def split: option.splits)

lemma sound_append_candidate:
  "sound_candidates nc \<Longrightarrow> name \<noteq> [] \<Longrightarrow> 6 / 10 \<le> c
   \<Longrightarrow> sound_candidates (append_candidate nc name (u, c))"
  by (induction nc name "(u, c)" rule: append_candidate.induct)
     (auto simp: sound_candidates_def sound_entry_def)

lemma sound_record_name:
  "sound_candidates nc \<Longrightarrow> name \<noteq> [] \<Longrightarrow> record_name e nc name u s = (Inr nc', s')
   \<Longrightarrow> sound_candidates nc'"
  by (auto simp: record_name_def split: sum.splits
      intro: sound_append_candidate source_credibility_floor)

lemma sound_from_page:
  "sound_candidates nc \<Longrightarrow> from_page e company role u s nc = (Inr nc', s')
   \<Longrightarrow> sound_candidates nc'"
  by (auto simp: from_page_def Let_def split: prod.splits if_splits option.splits
      dest: sound_record_name)

lemma sound_process_result:
  "sound_candidates nc \<Longrightarrow> process_result e company role res s nc = (Inr nc', s')
   \<Longrightarrow> sound_candidates nc'"
  by (auto simp: process_result_def split: option.splits if_splits
      dest: sound_record_name sound_from_page)

lemma sound_process_results:
  "sound_candidates nc \<Longrightarrow> process_results e company role rs s nc = (Inr nc', s')
   \<Longrightarrow> sound_candidates nc'"
proof (induction rs arbitrary: s nc)
  case Nil
  then show ?case by simp
next
  case (Cons r rs)
  obtain out s1 where p: "process_result e company role r s nc = (out, s1)"
    by (cases "process_result e company role r s nc")
  show ?case
  proof (cases out)
    case (Inl err)
    with p Cons.prems show ?thesis by simp
  next
    case (Inr nc1)
    with p Cons.prems(1) have "sound_candidates nc1" by (blast intro: sound_process_result)
    moreover from p Inr Cons.prems(2) have "process_results e company role rs s1 nc1 = (Inr nc', s')"
      by simp
    ultimately show ?thesis by (rule Cons.IH)
  qed
qed

lemma sound_run_query:
  "sound_candidates nc \<Longrightarrow> run_query e company role q s nc = (Inr nc', s')
   \<Longrightarrow> sound_candidates nc'"
  by (auto simp: run_query_def Let_def split: prod.splits dest: sound_process_results)

lemma sound_query_loop:
  "sound_candidates nc \<Longrightarrow> query_loop e company role qs s nc = (Inr nc', s')
   \<Longrightarrow> sound_candidates nc'"
proof (induction qs arbitrary: s nc)
  case Nil
  then show ?case by simp
next
  case (Cons q qs)
  obtain out s1 where r: "run_query e company role q s nc = (out, s1)"
    by (cases "run_query e company role q s nc")
  show ?case
  proof (cases out)
    case (Inl err)
    with r Cons.prems show ?thesis by simp
  next
    case (Inr nc1)
    with r Cons.prems(1) have sound1: "sound_candidates nc1" by (blast intro: sound_run_query)
    show ?thesis
    proof (cases "stop_condition nc1")
      case True
      with r Inr Cons.prems(2) sound1 show ?thesis by simp
    next
      case False
      with r Inr Cons.prems(2) have "query_loop e company role qs s1 nc1 = (Inr nc', s')" by simp
      with sound1 show ?thesis by (rule Cons.IH)
    qed
  qed
qed


lemma sum_scores_positive:
  fixes cs :: "contribution list"
  shows "cs \<noteq> [] \<Longrightarrow> \<forall>c \<in> set cs. 6 / 10 \<le> snd c \<Longrightarrow> 0 < sum_list (map snd cs)"
proof (induction cs)
  case Nil
  then show ?case by simp
next
  case (Cons c cs)
  have "0 \<le> x" if "x \<in> set (map snd cs)" for x
    using that Cons.prems(2) by auto
  then have "0 \<le> sum_list (map snd cs)" by (rule sum_list_nonneg)
  moreover from Cons.prems(2) have "0 < snd c" by auto
  ultimately show ?case by simp
qed

lemma final_score_positive:
  assumes "sound_entry (name, cs)"
  shows "\<exists>f. final_score name cs b_url = Inr f \<and> 0 < f"
proof -
  from assms have ne: "cs \<noteq> []" and floor: "\<forall>c \<in> set cs. 6 / 10 \<le> snd c"
    by (simp_all add: sound_entry_def)
  have base: "0 < sum_list (map snd cs) / of_nat (length cs)"
    using sum_scores_positive [OF ne floor] ne by simp
  have m0: "0 < 1 + of_nat (length cs) * (1 / 10 :: rat)"
    by (simp add: add_pos_nonneg)
  define m1 where "m1 = (if length (split name) = 2 \<and> split name ! 0 \<in> set common_first_names
                         then (1 + of_nat (length cs) * (1 / 10)) * (9 / 10)
                         else 1 + of_nat (length cs) * (1 / 10 :: rat))"
  define m2 where "m2 = (if list_ex (\<lambda>news. contains news b_url) news_tokens
                         then m1 * (105 / 100) else m1)"
  from m0 have "0 < m1" by (simp add: m1_def)
  then have "0 < m2" by (simp add: m2_def)
  then have "0 < sum_list (map snd cs) / of_nat (length cs) * m2"
    by (rule mult_pos_pos [OF base])
  then have "0 < min (sum_list (map snd cs) / of_nat (length cs) * m2) 1"
    by (simp only: min_less_iff_conj zero_less_one simp_thms)
  moreover have "final_score name cs b_url = Inr (min (sum_list (map snd cs) / of_nat (length cs) * m2) 1)"
    using ne by (simp add: final_score_def Let_def m1_def m2_def)
  ultimately show ?thesis by blast
qed

lemma score_candidate_chooses:
  assumes "sound_entry entry" and "chosen b \<or> best_score b = 0"
  shows "\<exists>b'. score_candidate b entry = Inr b' \<and> chosen b'"
proof -
  obtain name cs where entry: "entry = (name, cs)" by (cases entry)
  with assms(1) have name: "name \<noteq> []" and ne: "cs \<noteq> []" by (simp_all add: sound_entry_def)
  from ne obtain x xs where cs: "cs = x # xs" by (cases cs) auto
  from final_score_positive [of name cs "best_url b"] assms(1) entry
  obtain f where f: "final_score name cs (best_url b) = Inr f" "0 < f" by blast
  show ?thesis
  proof (cases "f > best_score b")
    case True
    with f cs entry name show ?thesis by (simp add: score_candidate_def chosen_def)
  next
    case False
    with f(2) assms(2) have "chosen b" by auto
    with False f entry show ?thesis by (simp add: score_candidate_def)
  qed
qed

lemma score_loop_keeps_chosen:
  "sound_candidates nc \<Longrightarrow> chosen b \<Longrightarrow> \<exists>b'. score_loop nc b = Inr b' \<and> chosen b'"
proof (induction nc arbitrary: b)
  case Nil
  then show ?case by simp
next
  case (Cons entry nc)
  from Cons.prems have "sound_entry entry" and rest: "sound_candidates nc"
    by (simp_all add: sound_candidates_def)
  with score_candidate_chooses [of entry b] Cons.prems(2)
  obtain b1 where b1: "score_candidate b entry = Inr b1" "chosen b1" by blast
  from Cons.IH [OF rest b1(2)] b1(1) show ?case by simp
qed

lemma score_loop_chooses:
  assumes "sound_candidates nc" and "nc \<noteq> []"
  shows "\<exists>b. score_loop nc initial_best = Inr b \<and> chosen b"
proof -
  from assms(2) obtain entry rest where nc: "nc = entry # rest" by (cases nc) auto
  with assms(1) have "sound_entry entry" and rest: "sound_candidates rest"
    by (simp_all add: sound_candidates_def)
  with score_candidate_chooses [of entry initial_best]
  obtain b1 where b1: "score_candidate initial_best entry = Inr b1" "chosen b1"
    by (auto simp: initial_best_def)
  from score_loop_keeps_chosen [OF rest b1(2)] b1(1) nc show ?thesis by simp
qed

lemma answer_not_error:
  "fst (answer company role b name s) \<noteq> Inr [(''error'', JStr (ascii ''Could not determine a valid name.''))]"
  by (simp add: answer_def internal_error_def Let_def split: list.splits)

text \<open>
  C10. Every credibility score is at least 0.6. Whenever the query loop ends with at
  least one candidate, every candidate's final score is defined and strictly positive
  (whatever the carried-over \<open>best_url\<close>), and the scoring loop ends with a winner
  whose name is not empty. So \<open>search\<close> never returns the
  \<open>Could not determine a valid name.\<close> error.
\<close>

theorem winner_always_found:
  "(source_credibility e u = Inr c \<longrightarrow> 6 / 10 \<le> c)
   \<and> (query_loop e company role qs s [] = (Inr nc, s1) \<and> nc \<noteq> [] \<longrightarrow>
        (\<forall>entry \<in> set nc. \<forall>b_url. \<exists>f. final_score (fst entry) (snd entry) b_url = Inr f \<and> 0 < f)
        \<and> (\<exists>b name. score_loop nc initial_best = Inr b \<and> best_name b = Some name \<and> name \<noteq> []
              \<and> 0 < best_score b))
   \<and> fst (search e company role s) \<noteq> Inr [(''error'', JStr (ascii ''Could not determine a valid name.''))]"
proof (intro conjI impI)
  assume "source_credibility e u = Inr c"
  then show "6 / 10 \<le> c" by (rule source_credibility_floor)
next
  assume a: "query_loop e company role qs s [] = (Inr nc, s1) \<and> nc \<noteq> []"
  have "sound_candidates []" by (simp add: sound_candidates_def)
  with a have sound: "sound_candidates nc" by (blast intro: sound_query_loop)
  then show "\<forall>entry \<in> set nc. \<forall>b_url. \<exists>f. final_score (fst entry) (snd entry) b_url = Inr f \<and> 0 < f"
    using final_score_positive by (simp add: sound_candidates_def)
  from score_loop_chooses [OF sound] a
  show "\<exists>b name. score_loop nc initial_best = Inr b \<and> best_name b = Some name \<and> name \<noteq> []
              \<and> 0 < best_score b"
    by (auto simp: chosen_def)
next
  let ?qs = "build_queries e company role"
  obtain out s1 where run: "query_loop e company role ?qs s [] = (out, s1)"
    by (cases "query_loop e company role ?qs s []")
  show "fst (search e company role s) \<noteq> Inr [(''error'', JStr (ascii ''Could not determine a valid name.''))]"
  proof (cases out)
    case (Inl err)
    with run show ?thesis by (simp add: search_def internal_error_def)
  next
    case (Inr nc)
    show ?thesis
    proof (cases "nc = []")
      case True
      with run Inr show ?thesis by (simp add: search_def)
    next
      case False
      have "sound_candidates []" by (simp add: sound_candidates_def)
      with run Inr have "sound_candidates nc" by (blast intro: sound_query_loop)
      from score_loop_chooses [OF this False]
      obtain b name where b: "score_loop nc initial_best = Inr b" "best_name b = Some name" "name \<noteq> []"
        by (auto simp: chosen_def)
      with run Inr False answer_not_error [of company role b name s1] show ?thesis
        by (simp add: search_def)
    qed
  qed
qed


lemma stub_winner:
  "score_loop stub_candidates initial_best
     = Inr \<lparr>best_name = Some (ascii ''Tim Cook''), best_score = 1,
            best_url = ascii ''https://www.linkedin.com/in/a''\<rparr>"
  by (simp add: stub_candidates_def initial_best_def score_candidate_def final_score_def Let_def
      split_def char_class_defs common_first_names_def news_tokens_def)

lemma stub_floor: "source_credibility stub_env (ascii ''https://example.com/b'') = Inr (6 / 10)"
  by (simp add: source_credibility_def credibility_of_domain_def stub_env_def stub_netloc_def char_class_defs
      trusted_def)

theorem winner_always_found_witness:
  "source_credibility stub_env (ascii ''https://example.com/b'') = Inr (6 / 10)
   \<and> fst (query_loop stub_env (ascii ''Acme'') (ascii ''ceo'') [ascii ''q1''] empty_state []) = Inr stub_candidates
   \<and> stub_candidates \<noteq> []
   \<and> (\<exists>b name. score_loop stub_candidates initial_best = Inr b \<and> best_name b = Some name
         \<and> name \<noteq> [] \<and> 0 < best_score b)
   \<and> fst (search stub_env (ascii ''Acme'') (ascii ''ceo'') empty_state)
       \<noteq> Inr [(''error'', JStr (ascii ''Could not determine a valid name.''))]"
proof -
  let ?s1 = "snd (query_loop stub_env (ascii ''Acme'') (ascii ''ceo'') [ascii ''q1''] empty_state [])"
  have run: "query_loop stub_env (ascii ''Acme'') (ascii ''ceo'') [ascii ''q1''] empty_state [] = (Inr stub_candidates, ?s1)"
    using stub_first_query by (metis prod.collapse)
  have nonempty: "stub_candidates \<noteq> []" by (simp add: ascii_def stub_candidates_def)
  note inst = winner_always_found [where e = stub_env and u = "(ascii ''https://example.com/b'')"
      and c = "6 / 10" and company = "(ascii ''Acme'')" and role = "(ascii ''ceo'')" and qs = "[ascii ''q1'']"
      and s = empty_state and nc = stub_candidates and ?s1.0 = ?s1]
  from inst run nonempty
  have found: "\<exists>b name. score_loop stub_candidates initial_best = Inr b \<and> best_name b = Some name
         \<and> name \<noteq> [] \<and> 0 < best_score b"
    by blast
  from inst have never: "fst (search stub_env (ascii ''Acme'') (ascii ''ceo'') empty_state)
       \<noteq> Inr [(''error'', JStr (ascii ''Could not determine a valid name.''))]"
    by blast
  from stub_floor stub_first_query nonempty found never show ?thesis by (intro conjI)
qed

subsection \<open>The answer\<close>













end
